theory Spec2Isabelle
  imports Complex_Main "HOL-Library.Log_Nat" "HOL-Library.Multiset" "HOL-Library.Sublist"
begin

section \<open>JavaScript numbers\<close>

text \<open>
  A JavaScript \<open>number\<close> is an IEEE-754 binary64 value: a finite value, one of the two
  infinities, or NaN. Finite values are modelled by the rational they denote; negative
  zero has its own constructor because \<open>toLocaleString\<close> prints its sign. Every
  arithmetic operation computes the exact rational result and rounds it to the nearest
  binary64 value, ties to even (\<open>roundD\<close>), overflowing to an infinity.
\<close>

datatype number = Fin rat | NegZero | PInf | NInf | NaN

text \<open>\<open>expo a\<close> is the binary exponent of a positive rational: \<open>2^e \<le> a < 2^(e+1)\<close>.\<close>

definition expo :: "rat \<Rightarrow> int" where
  "expo a = (case quotient_of a of (p, q) \<Rightarrow>
     let d = bitlen p - bitlen q in if 2 powi d \<le> a then d else d - 1)"

definition roundHalfEven :: "rat \<Rightarrow> int" where
  "roundHalfEven r = (let f = \<lfloor>r\<rfloor>; d = r - of_int f in
     if d < 1 / 2 then f else if 1 / 2 < d then f + 1 else if even f then f else f + 1)"

text \<open>
  Rounding at a known exponent: 53 significant bits, the exponent not below -1022
  (below it the spacing stays 2^-1074: subnormal values), overflow from 2^1024 on.
\<close>

definition roundAt :: "int \<Rightarrow> rat \<Rightarrow> number" where
  "roundAt e0 x = (let a = \<bar>x\<bar>;
         e = max e0 (- 1022);
         q = 2 powi (e - 52);
         r = of_int (roundHalfEven (a / q)) * q
     in if 2 powi 1024 \<le> r then (if x < 0 then NInf else PInf)
        else if r = 0 then (if x < 0 then NegZero else Fin 0)
        else Fin (if x < 0 then - r else r))"

definition roundD :: "rat \<Rightarrow> number" where
  "roundD x = (if x = 0 then Fin 0 else roundAt (expo \<bar>x\<bar>) x)"

definition isNeg :: "number \<Rightarrow> bool" where
  "isNeg x = (case x of Fin r \<Rightarrow> r < 0 | NegZero \<Rightarrow> True | PInf \<Rightarrow> False
     | NInf \<Rightarrow> True | NaN \<Rightarrow> False)"

definition val :: "number \<Rightarrow> rat" where
  "val x = (case x of Fin r \<Rightarrow> r | _ \<Rightarrow> 0)"

definition isFinite :: "number \<Rightarrow> bool" where
  "isFinite x = (case x of Fin r \<Rightarrow> True | NegZero \<Rightarrow> True | _ \<Rightarrow> False)"

definition isInf :: "number \<Rightarrow> bool" where
  "isInf x = (x = PInf \<or> x = NInf)"

definition zeroS :: "bool \<Rightarrow> number" where
  "zeroS s = (if s then NegZero else Fin 0)"

definition infS :: "bool \<Rightarrow> number" where
  "infS s = (if s then NInf else PInf)"

fun fneg :: "number \<Rightarrow> number" where
  "fneg (Fin r) = (if r = 0 then NegZero else Fin (- r))"
| "fneg NegZero = Fin 0"
| "fneg PInf = NInf"
| "fneg NInf = PInf"
| "fneg NaN = NaN"

text \<open>\<open>x + y\<close>.\<close>

fun fadd :: "number \<Rightarrow> number \<Rightarrow> number" where
  "fadd NaN y = NaN"
| "fadd x NaN = NaN"
| "fadd PInf NInf = NaN"
| "fadd NInf PInf = NaN"
| "fadd PInf y = PInf"
| "fadd x PInf = PInf"
| "fadd NInf y = NInf"
| "fadd x NInf = NInf"
| "fadd NegZero NegZero = NegZero"
| "fadd NegZero (Fin b) = Fin b"
| "fadd (Fin a) NegZero = Fin a"
| "fadd (Fin a) (Fin b) = roundD (a + b)"

text \<open>\<open>x - y\<close>.\<close>

definition fsub :: "number \<Rightarrow> number \<Rightarrow> number" where
  "fsub x y = fadd x (fneg y)"

text \<open>\<open>x * y\<close>.\<close>

definition fmul :: "number \<Rightarrow> number \<Rightarrow> number" where
  "fmul x y =
     (if x = NaN \<or> y = NaN then NaN
      else if isInf x \<or> isInf y then
        (if (isFinite x \<and> val x = 0) \<or> (isFinite y \<and> val y = 0) then NaN
         else infS (isNeg x \<noteq> isNeg y))
      else if val x = 0 \<or> val y = 0 then zeroS (isNeg x \<noteq> isNeg y)
      else roundD (val x * val y))"

text \<open>\<open>x / y\<close>.\<close>

definition fdiv :: "number \<Rightarrow> number \<Rightarrow> number" where
  "fdiv x y =
     (if x = NaN \<or> y = NaN then NaN
      else if isInf x then (if isInf y then NaN else infS (isNeg x \<noteq> isNeg y))
      else if isInf y then zeroS (isNeg x \<noteq> isNeg y)
      else if val y = 0 then (if val x = 0 then NaN else infS (isNeg x \<noteq> isNeg y))
      else if val x = 0 then zeroS (isNeg x \<noteq> isNeg y)
      else roundD (val x / val y))"

text \<open>\<open>x < y\<close>, \<open>x <= y\<close> and \<open>x > y\<close>: false as soon as an operand is NaN.\<close>

definition flt :: "number \<Rightarrow> number \<Rightarrow> bool" where
  "flt x y =
     (if x = NaN \<or> y = NaN then False
      else if x = PInf \<or> y = NInf then False
      else if x = NInf \<or> y = PInf then True
      else val x < val y)"

definition fle :: "number \<Rightarrow> number \<Rightarrow> bool" where
  "fle x y = (x \<noteq> NaN \<and> y \<noteq> NaN \<and> \<not> flt y x)"

definition fgt :: "number \<Rightarrow> number \<Rightarrow> bool" where
  "fgt x y = flt y x"

text \<open>\<open>Math.max(x, y)\<close>: NaN if an operand is NaN; +0 is larger than -0.\<close>

definition mathMax :: "number \<Rightarrow> number \<Rightarrow> number" where
  "mathMax x y =
     (if x = NaN \<or> y = NaN then NaN
      else if flt x y then y
      else if flt y x then x
      else if x = NegZero then y else x)"

text \<open>\<open>Math.trunc(x)\<close>: the integral part, keeping the sign of a zero result.\<close>

definition mathTrunc :: "number \<Rightarrow> number" where
  "mathTrunc x = (case x of
       Fin r \<Rightarrow> (if r < 0 then (if - 1 < r then NegZero else Fin (of_int \<lceil>r\<rceil>))
                 else Fin (of_int \<lfloor>r\<rfloor>))
     | _ \<Rightarrow> x)"

text \<open>The literal \<open>1e-9\<close>: the binary64 value nearest to 10^-9.\<close>

definition eps :: number where
  "eps = roundD (1 / 1000000000)"

section \<open>Errors\<close>

text \<open>
  \<open>TypeError\<close> and \<open>RangeError\<close> are raised by the language itself; \<open>Thrown\<close> stands for
  an exception thrown by code behind a property read (an accessor or a proxy trap).
\<close>

datatype error = TypeError | RangeError | Thrown

definition bindE :: "error + 'a \<Rightarrow> ('a \<Rightarrow> error + 'b) \<Rightarrow> error + 'b" where
  "bindE r f = (case r of Inl e \<Rightarrow> Inl e | Inr v \<Rightarrow> f v)"

section \<open>Number to string conversions\<close>

definition digitChar :: "nat \<Rightarrow> char" where
  "digitChar d = ''0123456789'' ! d"

fun digitsOf :: "nat \<Rightarrow> string" where
  "digitsOf n = (if n < 10 then [digitChar n] else digitsOf (n div 10) @ [digitChar (n mod 10)])"

declare digitsOf.simps [simp del]

text \<open>
  \<open>Number::toString\<close> for a finite value of magnitude at least 10^21 (the only place
  \<open>toFixed\<close> uses it on a finite value): the shortest decimal significand \<open>s\<close> of \<open>k\<close>
  digits with \<open>s * 10^(n-k)\<close> rounding to the value, the closest such \<open>s\<close> (the even one of
  two equally close), printed in exponent notation.
\<close>

definition candidates :: "rat \<Rightarrow> nat \<Rightarrow> nat \<Rightarrow> nat list" where
  "candidates a n k =
     (let t = a / 10 powi (int n - int k); lo = nat \<lfloor>t\<rfloor> in
      filter (\<lambda>s. 10 ^ (k - 1) \<le> s \<and> s < 10 ^ k \<and>
                  roundD (of_nat s * 10 powi (int n - int k)) = Fin a) [lo, lo + 1])"

definition closest :: "rat \<Rightarrow> nat \<Rightarrow> nat \<Rightarrow> nat list \<Rightarrow> nat" where
  "closest a n k cs = (case cs of
       [s] \<Rightarrow> s
     | [s, s'] \<Rightarrow>
         (let d = \<bar>of_nat s * 10 powi (int n - int k) - a\<bar>;
              d' = \<bar>of_nat s' * 10 powi (int n - int k) - a\<bar>
          in if d < d' then s else if d' < d then s' else if even s then s else s')
     | _ \<Rightarrow> 0)"

fun shortest :: "rat \<Rightarrow> nat \<Rightarrow> nat \<Rightarrow> nat \<Rightarrow> (nat \<times> nat \<times> nat) option" where
  "shortest a d k 0 = None"
| "shortest a d k (Suc fuel) =
     (case candidates a d k of
        [] \<Rightarrow> (case candidates a (d + 1) k of
                 [] \<Rightarrow> shortest a d (k + 1) fuel
               | cs \<Rightarrow> Some (d + 1, k, closest a (d + 1) k cs))
      | cs \<Rightarrow> Some (d, k, closest a d k cs))"

definition expString :: "rat \<Rightarrow> string" where
  "expString a =
     (let d = length (digitsOf (nat \<lfloor>a\<rfloor>)) in
      case shortest a d 1 17 of
        None \<Rightarrow> []
      | Some (n, k, s) \<Rightarrow>
          (let ds = digitsOf s in
           (if k = 1 then ds else take 1 ds @ ''.'' @ drop 1 ds) @ ''e+'' @ digitsOf (n - 1)))"

text \<open>
  \<open>Number.prototype.toFixed(fractionDigits)\<close>. The digit count is converted with
  \<open>ToIntegerOrInfinity\<close>; outside 0..100 the method throws a RangeError.
\<close>

definition fractionDigits :: "number \<Rightarrow> error + nat" where
  "fractionDigits fd = (case fd of
       NaN \<Rightarrow> Inr 0
     | NegZero \<Rightarrow> Inr 0
     | PInf \<Rightarrow> Inl RangeError
     | NInf \<Rightarrow> Inl RangeError
     | Fin r \<Rightarrow> (let t = (if r < 0 then \<lceil>r\<rceil> else \<lfloor>r\<rfloor>) in
                 if t < 0 \<or> 100 < t then Inl RangeError else Inr (nat t)))"

definition fixedDigits :: "rat \<Rightarrow> nat \<Rightarrow> string" where
  "fixedDigits a f =
     (let n = nat \<lfloor>a * 10 ^ f + 1 / 2\<rfloor>;
          m = digitsOf n
      in if f = 0 then m
         else (let m' = (if length m \<le> f then replicate (f + 1 - length m) CHR ''0'' @ m else m);
                   k = length m'
               in take (k - f) m' @ ''.'' @ drop (k - f) m'))"

definition fixedString :: "number \<Rightarrow> nat \<Rightarrow> string" where
  "fixedString x f = (case x of
       NaN \<Rightarrow> ''NaN''
     | PInf \<Rightarrow> ''Infinity''
     | NInf \<Rightarrow> ''-Infinity''
     | NegZero \<Rightarrow> fixedDigits 0 f
     | Fin r \<Rightarrow> (if r < 0 then ''-'' else []) @
                (if 10 ^ 21 \<le> \<bar>r\<bar> then expString \<bar>r\<bar> else fixedDigits \<bar>r\<bar> f))"

definition toFixed :: "number \<Rightarrow> number \<Rightarrow> error + string" where
  "toFixed x fd = bindE (fractionDigits fd) (\<lambda>f. Inr (fixedString x f))"

text \<open>
  \<open>Number.prototype.toLocaleString()\<close> of an integral value, with the host's default
  locale taken to be en-US (the locale of the specification's examples): digits in groups
  of three separated by commas, a minus sign also for negative zero, the infinity sign
  (U+221E, here in UTF-8) and \<open>NaN\<close>. The digits are the shortest decimal digits that
  read back as the same binary64 value, padded with zeros up to the units: up to 2^53
  these are the exact digits of the integer, above it at most 17 digits are followed by
  zeros.
\<close>

definition integerDigits :: "rat \<Rightarrow> string" where
  "integerDigits a =
     (if a \<le> 2 ^ 53 then digitsOf (nat \<lfloor>a\<rfloor>)
      else (case shortest a (length (digitsOf (nat \<lfloor>a\<rfloor>))) 1 17 of
              None \<Rightarrow> digitsOf (nat \<lfloor>a\<rfloor>)
            | Some (n, k, s) \<Rightarrow> digitsOf s @ replicate (n - k) CHR ''0''))"

fun group3 :: "string \<Rightarrow> string" where
  "group3 ds = (if length ds \<le> 3 then ds
     else group3 (take (length ds - 3) ds) @ '','' @ drop (length ds - 3) ds)"

declare group3.simps [simp del]

definition infinitySign :: string where
  "infinitySign = [CHR 0xE2, CHR 0x88, CHR 0x9E]"

definition toLocaleString :: "number \<Rightarrow> string" where
  "toLocaleString x = (case x of
       NaN \<Rightarrow> ''NaN''
     | PInf \<Rightarrow> infinitySign
     | NInf \<Rightarrow> ''-'' @ infinitySign
     | NegZero \<Rightarrow> ''-0''
     | Fin r \<Rightarrow> (if r < 0 then ''-'' else []) @ group3 (integerDigits \<bar>r\<bar>))"

section \<open>JavaScript values\<close>

text \<open>
  The events handed to the aggregator have type \<open>unknown\<close>: primitives, functions, and
  objects (arrays included). An object is the list of the properties a read can find on
  it, own or inherited, each with the outcome of reading it: the value found (of a data
  property, or returned by an accessor or a proxy trap) or the exception thrown by the code
  behind the read. A read is taken to have the same outcome each time and no effect on
  other values.
\<close>

datatype jsval =
    JUndefined
  | JNull
  | JBool bool
  | JNum number
  | JStr string
  | JBigInt int
  | JSymbol string
  | JFunction
  | JObj "(string \<times> (error + jsval)) list"

definition typeOf :: "jsval \<Rightarrow> string" where
  "typeOf v = (case v of
       JUndefined \<Rightarrow> ''undefined''
     | JNull \<Rightarrow> ''object''
     | JBool b \<Rightarrow> ''boolean''
     | JNum n \<Rightarrow> ''number''
     | JStr s \<Rightarrow> ''string''
     | JBigInt i \<Rightarrow> ''bigint''
     | JSymbol s \<Rightarrow> ''symbol''
     | JFunction \<Rightarrow> ''function''
     | JObj ps \<Rightarrow> ''object'')"

text \<open>
  Property read \<open>v.k\<close>: a TypeError on \<open>undefined\<close> and \<open>null\<close>, the outcome recorded
  for the property on an object, \<open>undefined\<close> for a property that is not there.
\<close>

definition getProp :: "jsval \<Rightarrow> string \<Rightarrow> error + jsval" where
  "getProp v k = (case v of
       JUndefined \<Rightarrow> Inl TypeError
     | JNull \<Rightarrow> Inl TypeError
     | JObj ps \<Rightarrow> (case map_of ps k of None \<Rightarrow> Inr JUndefined | Some r \<Rightarrow> r)
     | _ \<Rightarrow> Inr JUndefined)"

section \<open>The usage aggregator\<close>

record Usage =
  input :: number
  output_n :: number
  cacheRead :: number
  cacheWrite :: number
  totalTokens :: number

record Options =
  minOutputTokensToNotify :: number
  minSecondsToNotify :: number
  precision :: number
  showCache :: bool
  showTotals :: bool

definition DEFAULTS :: Options where
  "DEFAULTS = \<lparr>minOutputTokensToNotify = Fin 1, minSecondsToNotify = Fin 0,
     precision = Fin 1, showCache = True, showTotals = True\<rparr>"

definition isRecord :: "jsval \<Rightarrow> bool" where
  "isRecord v = (typeOf v = ''object'' \<and> v \<noteq> JNull)"

definition isAssistantMessage :: "jsval \<Rightarrow> error + bool" where
  "isAssistantMessage message =
     (if \<not> isRecord message then Inr False
      else bindE (getProp message ''role'') (\<lambda>role. Inr (role = JStr ''assistant'')))"

definition readNumber :: "jsval \<Rightarrow> number" where
  "readNumber v = (case v of JNum n \<Rightarrow> (if isFinite n then n else Fin 0) | _ \<Rightarrow> Fin 0)"

text \<open>One pass of the loop body; \<open>continue\<close> returns the accumulator unchanged.\<close>

definition aggregateStep :: "Usage \<Rightarrow> jsval \<Rightarrow> error + Usage" where
  "aggregateStep acc m =
     bindE (isAssistantMessage m) (\<lambda>assistant.
       if \<not> assistant then Inr acc
       else bindE (getProp m ''usage'') (\<lambda>usage.
         if \<not> isRecord usage then Inr acc
         else
           bindE (getProp usage ''input'') (\<lambda>v1.
           let acc1 = acc\<lparr>input := fadd (input acc) (readNumber v1)\<rparr> in
           bindE (getProp usage ''output'') (\<lambda>v2.
           let acc2 = acc1\<lparr>output_n := fadd (output_n acc1) (readNumber v2)\<rparr> in
           bindE (getProp usage ''cacheRead'') (\<lambda>v3.
           let acc3 = acc2\<lparr>cacheRead := fadd (cacheRead acc2) (readNumber v3)\<rparr> in
           bindE (getProp usage ''cacheWrite'') (\<lambda>v4.
           let acc4 = acc3\<lparr>cacheWrite := fadd (cacheWrite acc3) (readNumber v4)\<rparr> in
           bindE (getProp usage ''totalTokens'') (\<lambda>v5.
           Inr (acc4\<lparr>totalTokens := fadd (totalTokens acc4) (readNumber v5)\<rparr>))))))))"

fun aggregateLoop :: "Usage \<Rightarrow> jsval list \<Rightarrow> error + Usage" where
  "aggregateLoop acc [] = Inr acc"
| "aggregateLoop acc (m # ms) =
     (case aggregateStep acc m of Inl e \<Rightarrow> Inl e | Inr acc' \<Rightarrow> aggregateLoop acc' ms)"

definition zeroUsage :: Usage where
  "zeroUsage = \<lparr>input = Fin 0, output_n = Fin 0, cacheRead = Fin 0, cacheWrite = Fin 0,
     totalTokens = Fin 0\<rparr>"

definition aggregateUsage :: "jsval list \<Rightarrow> error + Usage" where
  "aggregateUsage messages = aggregateLoop zeroUsage messages"

section \<open>The notification formatter\<close>

definition fmtInt :: "number \<Rightarrow> string" where
  "fmtInt n = toLocaleString (mathTrunc n)"

fun joinWith :: "string \<Rightarrow> string list \<Rightarrow> string" where
  "joinWith sep [] = []"
| "joinWith sep [p] = p"
| "joinWith sep (p # q # ps) = p @ sep @ joinWith sep (q # ps)"

record Args =
  elapsedSeconds :: number
  usage :: Usage
  options :: Options

text \<open>The segments in the order they are pushed onto \<open>parts\<close>.\<close>

definition formatParts :: "Args \<Rightarrow> error + string list" where
  "formatParts args =
     (let outTps = fdiv (output_n (usage args)) (mathMax (elapsedSeconds args) eps);
          parts0 = [] in
      bindE (toFixed outTps (precision (options args))) (\<lambda>tps.
      let parts1 = parts0 @ [''TPS '' @ tps @ '' tok/s''];
          parts2 = parts1 @ [''out '' @ fmtInt (output_n (usage args))];
          parts3 = parts2 @ [''in '' @ fmtInt (input (usage args))] in
      bindE
        (if showCache (options args) then
           (let parts4 = parts3 @ [''cache r/w '' @ fmtInt (cacheRead (usage args)) @ ''/'' @
                                   fmtInt (cacheWrite (usage args))];
                denom = fadd (input (usage args)) (cacheRead (usage args)) in
            if fgt denom (Fin 0) then
              (let hitRate = fdiv (cacheRead (usage args)) denom in
               bindE (toFixed (fmul hitRate (Fin 100)) (Fin 0)) (\<lambda>pct.
               Inr (parts4 @ [''cache% '' @ pct @ ''%''])))
            else Inr parts4)
         else Inr parts3) (\<lambda>parts5.
      bindE
        (if showTotals (options args) then
           (let parts6 = parts5 @ [''total '' @ fmtInt (totalTokens (usage args))];
                ratio = (if fgt (input (usage args)) (Fin 0)
                         then fdiv (output_n (usage args)) (input (usage args)) else Fin 0) in
            if fgt (input (usage args)) (Fin 0) then
              bindE (toFixed ratio (Fin 2)) (\<lambda>oi. Inr (parts6 @ [''o/i '' @ oi]))
            else Inr parts6)
         else Inr parts5) (\<lambda>parts7.
      bindE (toFixed (elapsedSeconds args) (precision (options args))) (\<lambda>secs.
      Inr (parts7 @ [secs @ ''s'']))))))"

definition formatNotification :: "Args \<Rightarrow> error + string" where
  "formatNotification args = bindE (formatParts args) (\<lambda>parts. Inr (joinWith '', '' parts))"

section \<open>The run tracker\<close>

text \<open>
  \<open>tpsExtension\<close> registers two handlers that share \<open>agentStartMs\<close> and the options
  (the caller's options merged over the defaults, taken here as the handlers' parameter).
  The handlers are modelled as functions of that variable, the clock reading
  \<open>Date.now()\<close> (integral milliseconds) and, for the end of a run, the event's messages
  and the context's \<open>hasUI\<close> flag. A handler returns the new value of \<open>agentStartMs\<close>;
  the end handler also returns what it did to the sink \<open>ctx.ui.notify\<close>.
\<close>

datatype outcome = Silent | Notify string string | Raised error

definition on_agent_start :: "int \<Rightarrow> int option \<Rightarrow> int option" where
  "on_agent_start now agentStartMs = Some now"

definition on_agent_end ::
  "Options \<Rightarrow> jsval list \<Rightarrow> bool \<Rightarrow> int \<Rightarrow> int option \<Rightarrow> int option \<times> outcome" where
  "on_agent_end opts messages hasUI now agentStartMs =
     (if \<not> hasUI then (agentStartMs, Silent)
      else case agentStartMs of
        None \<Rightarrow> (agentStartMs, Silent)
      | Some start \<Rightarrow>
          (let elapsedMs = fsub (Fin (of_int now)) (Fin (of_int start));
               agentStartMs' = None in
           if fle elapsedMs (Fin 0) then (agentStartMs', Silent)
           else
             (let elapsedSeconds = fdiv elapsedMs (Fin 1000) in
              case aggregateUsage messages of
                Inl e \<Rightarrow> (agentStartMs', Raised e)
              | Inr u \<Rightarrow>
                  if flt (output_n u) (minOutputTokensToNotify opts) then (agentStartMs', Silent)
                  else if flt elapsedSeconds (minSecondsToNotify opts) then (agentStartMs', Silent)
                  else
                    (case formatNotification
                            \<lparr>elapsedSeconds = elapsedSeconds, usage = u, options = opts\<rparr> of
                       Inl e \<Rightarrow> (agentStartMs', Raised e)
                     | Inr msg \<Rightarrow> (agentStartMs', Notify msg ''info'')))))"

section \<open>Notions used in the statements\<close>

text \<open>
  Notions used to state the claims about the aggregator. \<open>addUsage\<close> is the field-wise
  \<open>+\<close> of two counter records. \<open>returns\<close> says that reading a property does not throw
  and \<open>field\<close> is the value the read finds (\<open>undefined\<close> when the property is not there).
  \<open>isAssistantRecord\<close> is the specification's filter (a structured record whose role
  reads as the literal "assistant"). \<open>contribution\<close> is what one included event adds: the
  five sub-fields of its usage record as \<open>readNumber\<close> reads them, or nothing when the
  event is skipped. \<open>readsQuietly\<close> says that none of the reads the loop body performs on
  the event throws: the role; for an assistant record the usage; for a usage record its
  five sub-fields.
\<close>

definition addUsage :: "Usage \<Rightarrow> Usage \<Rightarrow> Usage" where
  "addUsage a b = \<lparr>input = fadd (input a) (input b), output_n = fadd (output_n a) (output_n b),
     cacheRead = fadd (cacheRead a) (cacheRead b), cacheWrite = fadd (cacheWrite a) (cacheWrite b),
     totalTokens = fadd (totalTokens a) (totalTokens b)\<rparr>"

definition returns :: "(string \<times> (error + jsval)) list \<Rightarrow> string \<Rightarrow> bool" where
  "returns ps k = (case map_of ps k of Some (Inl e) \<Rightarrow> False | _ \<Rightarrow> True)"

definition field :: "(string \<times> (error + jsval)) list \<Rightarrow> string \<Rightarrow> jsval" where
  "field ps k = (case map_of ps k of Some (Inr w) \<Rightarrow> w | _ \<Rightarrow> JUndefined)"

definition isAssistantRecord :: "jsval \<Rightarrow> bool" where
  "isAssistantRecord m = (case m of
       JObj ps \<Rightarrow> map_of ps ''role'' = Some (Inr (JStr ''assistant''))
     | _ \<Rightarrow> False)"

definition contribution :: "jsval \<Rightarrow> Usage option" where
  "contribution m = (case m of
       JObj ps \<Rightarrow>
         (if map_of ps ''role'' = Some (Inr (JStr ''assistant'')) then
            (case field ps ''usage'' of
               JObj us \<Rightarrow> Some \<lparr>input = readNumber (field us ''input''),
                                output_n = readNumber (field us ''output''),
                                cacheRead = readNumber (field us ''cacheRead''),
                                cacheWrite = readNumber (field us ''cacheWrite''),
                                totalTokens = readNumber (field us ''totalTokens'')\<rparr>
             | _ \<Rightarrow> None)
          else None)
     | _ \<Rightarrow> None)"

definition readsQuietly :: "jsval \<Rightarrow> bool" where
  "readsQuietly m = (case m of
       JObj ps \<Rightarrow>
         (if \<not> returns ps ''role'' then False
          else if field ps ''role'' \<noteq> JStr ''assistant'' then True
          else if \<not> returns ps ''usage'' then False
          else (case field ps ''usage'' of
                  JObj us \<Rightarrow> list_all (returns us)
                     [''input'', ''output'', ''cacheRead'', ''cacheWrite'', ''totalTokens'']
                | _ \<Rightarrow> True))
     | _ \<Rightarrow> True)"

definition contribs :: "jsval list \<Rightarrow> Usage list" where
  "contribs ms = List.map_filter contribution ms"

text \<open>\<open>nonNeg x\<close> is the comparison \<open>0 <= x\<close> of the language.\<close>

definition nonNeg :: "number \<Rightarrow> bool" where
  "nonNeg x = fle (Fin 0) x"

definition nonNegUsage :: "Usage \<Rightarrow> bool" where
  "nonNegUsage u = (nonNeg (input u) \<and> nonNeg (output_n u) \<and> nonNeg (cacheRead u) \<and>
     nonNeg (cacheWrite u) \<and> nonNeg (totalTokens u))"

definition notNaNUsage :: "Usage \<Rightarrow> bool" where
  "notNaNUsage u = (input u \<noteq> NaN \<and> output_n u \<noteq> NaN \<and> cacheRead u \<noteq> NaN \<and>
     cacheWrite u \<noteq> NaN \<and> totalTokens u \<noteq> NaN)"

definition finiteUsage :: "Usage \<Rightarrow> bool" where
  "finiteUsage u = (isFinite (input u) \<and> isFinite (output_n u) \<and> isFinite (cacheRead u) \<and>
     isFinite (cacheWrite u) \<and> isFinite (totalTokens u))"

text \<open>
  Example events: an assistant record whose usage record holds the given data properties,
  and an object whose role is an accessor that throws.
\<close>

definition plain :: "(string \<times> jsval) list \<Rightarrow> (string \<times> (error + jsval)) list" where
  "plain us = map (\<lambda>(k, v). (k, Inr v)) us"

definition assistantEvent :: "(string \<times> jsval) list \<Rightarrow> jsval" where
  "assistantEvent us =
     JObj [(''role'', Inr (JStr ''assistant'')), (''usage'', Inr (JObj (plain us)))]"

definition throwingEvent :: jsval where
  "throwingEvent = JObj [(''role'', Inl Thrown)]"

text \<open>
  Safe integers: every value an integer, the absolute values summing to at most 2^53, so
  that no addition of the fold rounds.
\<close>

definition isInt :: "number \<Rightarrow> bool" where
  "isInt x = (case x of Fin r \<Rightarrow> of_int \<lfloor>r\<rfloor> = r | _ \<Rightarrow> False)"

definition intVal :: "number \<Rightarrow> int" where
  "intVal x = \<lfloor>val x\<rfloor>"

definition safeInts :: "number list \<Rightarrow> bool" where
  "safeInts xs = (list_all isInt xs \<and> sum_list (map (\<lambda>x. \<bar>intVal x\<bar>) xs) \<le> 2 ^ 53)"

definition safeUsages :: "Usage list \<Rightarrow> bool" where
  "safeUsages cs = (safeInts (map input cs) \<and> safeInts (map output_n cs) \<and>
     safeInts (map cacheRead cs) \<and> safeInts (map cacheWrite cs) \<and>
     safeInts (map totalTokens cs))"

definition exactSum :: "Usage list \<Rightarrow> Usage" where
  "exactSum cs = \<lparr>input = Fin (of_int (sum_list (map (intVal \<circ> input) cs))),
     output_n = Fin (of_int (sum_list (map (intVal \<circ> output_n) cs))),
     cacheRead = Fin (of_int (sum_list (map (intVal \<circ> cacheRead) cs))),
     cacheWrite = Fin (of_int (sum_list (map (intVal \<circ> cacheWrite) cs))),
     totalTokens = Fin (of_int (sum_list (map (intVal \<circ> totalTokens) cs)))\<rparr>"

definition inputEvent :: "rat \<Rightarrow> jsval" where
  "inputEvent k = assistantEvent [(''input'', JNum (Fin k))]"

text \<open>
  The formatter's segments, named: each is the template string the source pushes, with
  \<open>toFixed\<close> replaced by its rendering \<open>fixedString\<close> at the digit count the
  precision option converts to. \<open>segments\<close> lists them in the specified order, the
  optional ones under their conditions.
\<close>

definition precisionDigits :: "Options \<Rightarrow> nat" where
  "precisionDigits opts = (case fractionDigits (precision opts) of Inr f \<Rightarrow> f | Inl e \<Rightarrow> 0)"

definition throughputSeg :: "Args \<Rightarrow> string" where
  "throughputSeg args = ''TPS '' @
     fixedString (fdiv (output_n (usage args)) (mathMax (elapsedSeconds args) eps))
       (precisionDigits (options args)) @ '' tok/s''"

definition outputSeg :: "Args \<Rightarrow> string" where
  "outputSeg args = ''out '' @ fmtInt (output_n (usage args))"

definition inputSeg :: "Args \<Rightarrow> string" where
  "inputSeg args = ''in '' @ fmtInt (input (usage args))"

definition cacheSeg :: "Args \<Rightarrow> string" where
  "cacheSeg args = ''cache r/w '' @ fmtInt (cacheRead (usage args)) @ ''/'' @
     fmtInt (cacheWrite (usage args))"

definition hitRateSeg :: "Args \<Rightarrow> string" where
  "hitRateSeg args = ''cache% '' @
     fixedString (fmul (fdiv (cacheRead (usage args))
                    (fadd (input (usage args)) (cacheRead (usage args)))) (Fin 100)) 0 @ ''%''"

definition totalSeg :: "Args \<Rightarrow> string" where
  "totalSeg args = ''total '' @ fmtInt (totalTokens (usage args))"

definition ratioSeg :: "Args \<Rightarrow> string" where
  "ratioSeg args = ''o/i '' @ fixedString (fdiv (output_n (usage args)) (input (usage args))) 2"

definition elapsedSeg :: "Args \<Rightarrow> string" where
  "elapsedSeg args = fixedString (elapsedSeconds args) (precisionDigits (options args)) @ ''s''"

definition segments :: "Args \<Rightarrow> string list" where
  "segments args =
     [throughputSeg args, outputSeg args, inputSeg args] @
     (if showCache (options args)
      then cacheSeg args #
           (if fgt (fadd (input (usage args)) (cacheRead (usage args))) (Fin 0)
            then [hitRateSeg args] else [])
      else []) @
     (if showTotals (options args)
      then totalSeg args #
           (if fgt (input (usage args)) (Fin 0) then [ratioSeg args] else [])
      else []) @
     [elapsedSeg args]"

definition setToggles :: "bool \<Rightarrow> bool \<Rightarrow> Args \<Rightarrow> Args" where
  "setToggles c t args = args\<lparr>options := (options args)\<lparr>showCache := c, showTotals := t\<rparr>\<rparr>"

definition outputEvent :: "rat \<Rightarrow> jsval" where
  "outputEvent k = assistantEvent [(''output'', JNum (Fin k))]"

text \<open>
  Reading a decimal digit string back: \<open>isDigit\<close> recognises the ten digit characters
  and \<open>digitsValue\<close> is the number a digit string denotes.
\<close>

definition isDigit :: "char \<Rightarrow> bool" where
  "isDigit c = (c \<in> set ''0123456789'')"

definition digitVal :: "char \<Rightarrow> nat" where
  "digitVal c = of_char c - 48"

definition digitsValue :: "string \<Rightarrow> nat" where
  "digitsValue ds = foldl (\<lambda>v c. 10 * v + digitVal c) 0 ds"

section \<open>Facts about rounding\<close>

lemma pow2_less_iff: "(2::rat) powi m < 2 powi n \<longleftrightarrow> m < n"
proof
  assume h: "(2::rat) powi m < 2 powi n"
  show "m < n"
  proof (rule ccontr)
    assume "\<not> m < n"
    then have "n \<le> m" by simp
    then have "(2::rat) powi n \<le> 2 powi m" by (rule power_int_increasing) simp
    with h show False by simp
  qed
next
  assume "m < n"
  then show "(2::rat) powi m < 2 powi n" by (rule power_int_strict_increasing) simp
qed

lemma pow2_le_iff: "(2::rat) powi m \<le> 2 powi n \<longleftrightarrow> m \<le> n"
  using pow2_less_iff[of n m] by (auto simp: not_less[symmetric])

lemma pow2_bitlen:
  fixes p :: int assumes "0 < p"
  shows "(2::rat) powi (bitlen p - 1) \<le> of_int p" "of_int p < (2::rat) powi (bitlen p)"
proof -
  have b: "1 \<le> bitlen p" using assms by (simp add: bitlen_alt_def)
  have "(2::int) ^ nat (bitlen p - 1) \<le> p" "p < 2 ^ nat (bitlen p)"
    using bitlen_bounds[OF assms] by auto
  then have "(of_int ((2::int) ^ nat (bitlen p - 1)) :: rat) \<le> of_int p" "(of_int p :: rat) < of_int (2 ^ nat (bitlen p))"
    by (simp_all only: of_int_le_iff of_int_less_iff)
  then show "(2::rat) powi (bitlen p - 1) \<le> of_int p" "of_int p < (2::rat) powi (bitlen p)"
    using b by (simp_all add: power_int_nonneg_exp)
qed

lemma expo_bounds:
  assumes "0 < a"
  shows "2 powi (expo a) \<le> a" "a < 2 powi (expo a + 1)"
proof -
  obtain p q where pq: "quotient_of a = (p, q)" by (cases "quotient_of a")
  have q: "0 < q" using quotient_of_denom_pos[OF pq] .
  have a: "a = of_int p / of_int q" using quotient_of_div[OF pq] .
  have p: "0 < p" using assms q a by (simp add: zero_less_divide_iff)
  let ?d = "bitlen p - bitlen q"
  have qr: "(0::rat) < of_int q" using q by simp
  have up: "a < 2 powi (?d + 1)"
  proof -
    have "of_int p < (2::rat) powi (bitlen p)" using pow2_bitlen(2)[OF p] .
    also have "\<dots> = 2 powi (?d + 1) * 2 powi (bitlen q - 1)"
      by (simp flip: power_int_add)
    also have "\<dots> \<le> 2 powi (?d + 1) * of_int q"
      using pow2_bitlen(1)[OF q] by (intro mult_left_mono) simp_all
    finally show ?thesis using qr by (simp add: a pos_divide_less_eq)
  qed
  have lo: "2 powi (?d - 1) < a"
  proof -
    have "2 powi (?d - 1) * of_int q < (2::rat) powi (?d - 1) * 2 powi (bitlen q)"
      using pow2_bitlen(2)[OF q] by (intro mult_strict_left_mono) simp_all
    also have "\<dots> = 2 powi (bitlen p - 1)"
      by (simp flip: power_int_add)
    also have "\<dots> \<le> of_int p" using pow2_bitlen(1)[OF p] .
    finally show ?thesis using qr by (simp add: a pos_less_divide_eq)
  qed
  show "2 powi (expo a) \<le> a" "a < 2 powi (expo a + 1)"
    using up lo by (auto simp: expo_def pq Let_def)
qed

lemma expo_unique:
  assumes "0 < a" "2 powi e \<le> a" "a < 2 powi (e + 1)"
  shows "expo a = e"
proof -
  have "(2::rat) powi (expo a) < 2 powi (e + 1)" using expo_bounds(1)[OF assms(1)] assms(3) by simp
  then have 1: "expo a < e + 1" by (simp only: pow2_less_iff)
  have "(2::rat) powi e < 2 powi (expo a + 1)" using expo_bounds(2)[OF assms(1)] assms(2) by simp
  then have 2: "e < expo a + 1" by (simp only: pow2_less_iff)
  show ?thesis using 1 2 by simp
qed

lemma roundD_at:
  "x \<noteq> 0 \<Longrightarrow> 2 powi e \<le> \<bar>x\<bar> \<Longrightarrow> \<bar>x\<bar> < 2 powi (e + 1) \<Longrightarrow> roundD x = roundAt e x"
  by (simp add: roundD_def expo_unique)

lemma floor_numeral_div [simp]: "\<lfloor>numeral a / numeral b :: rat\<rfloor> = numeral a div numeral b"
  using floor_divide_of_int_eq[of "numeral a" "numeral b", where ?'a = rat] by simp

lemma roundHalfEven_of_int [simp]: "roundHalfEven (of_int n) = n"
  by (simp add: roundHalfEven_def)


lemma floor_one_div_numeral [simp]: "\<lfloor>1 / numeral b :: rat\<rfloor> = 1 div numeral b"
  using floor_divide_of_int_eq[of 1 "numeral b", where ?'a = rat] by simp

lemma roundAt_exact:
  assumes k: "\<bar>x\<bar> / 2 powi (max e (- 1022) - 52) = of_int k" and x: "x \<noteq> 0" and b: "\<bar>x\<bar> < 2 powi 1024"
  shows "roundAt e x = Fin x"
proof -
  define q :: rat where "q = 2 powi (max e (- 1022) - 52)"
  have q: "q \<noteq> 0" by (simp add: q_def)
  have k': "\<bar>x\<bar> / q = of_int k" using k by (simp add: q_def)
  have "of_int (roundHalfEven (\<bar>x\<bar> / q)) * q = of_int k * q"
    by (simp add: k')
  also have "\<dots> = (\<bar>x\<bar> / q) * q" by (simp only: k')
  also have "\<dots> = \<bar>x\<bar>" using q by simp
  finally have r: "of_int (roundHalfEven (\<bar>x\<bar> / q)) * q = \<bar>x\<bar>" .
  have "roundAt e x = (if 2 powi 1024 \<le> \<bar>x\<bar> then (if x < 0 then NInf else PInf)
        else if \<bar>x\<bar> = 0 then (if x < 0 then NegZero else Fin 0)
        else Fin (if x < 0 then - \<bar>x\<bar> else \<bar>x\<bar>))"
    unfolding roundAt_def Let_def q_def[symmetric] r ..
  then show ?thesis using x b by auto
qed

lemma roundD_int:
  assumes "\<bar>n\<bar> \<le> 2 ^ 53"
  shows "roundD (of_int n) = Fin (of_int n)"
proof (cases "n = 0")
  case True
  then show ?thesis by (simp add: roundD_def)
next
  case False
  define a :: rat where "a = \<bar>of_int n\<bar>"
  have a1: "1 \<le> a" using False by (simp add: a_def flip: of_int_abs)
  have a53: "a \<le> 2 powi 53" using assms unfolding a_def
    by (simp flip: of_int_abs)
  have apos: "0 < a" using a1 by simp
  define e where "e = expo a"
  have lo: "2 powi e \<le> a" and hi: "a < 2 powi (e + 1)"
    using expo_bounds[OF apos] by (simp_all add: e_def)
  have "(2::rat) powi 0 < 2 powi (e + 1)" using a1 hi by simp
  then have "0 < e + 1" by (simp only: pow2_less_iff)
  then have e0: "0 \<le> e" by simp
  have "(2::rat) powi e \<le> 2 powi 53" using lo a53 by simp
  then have e53: "e \<le> 53" by (simp only: pow2_le_iff)
  have m: "max e (- 1022) = e" using e0 by simp
  have "\<exists>k. a / 2 powi (e - 52) = of_int k"
  proof (cases "e \<le> 52")
    case True
    have "a / 2 powi (e - 52) = a * 2 powi (52 - e)"
      by (simp add: power_int_diff field_simps)
    also have "\<dots> = of_int (\<bar>n\<bar> * 2 ^ nat (52 - e))"
      using True by (simp add: a_def power_int_nonneg_exp flip: of_int_abs)
    finally show ?thesis by blast
  next
    case False
    then have e: "e = 53" using e53 by simp
    have "a = 2 powi 53" using lo a53 e by simp
    then have "a / 2 powi (e - 52) = of_int (2 ^ 52)" by (simp add: e)
    then show ?thesis by blast
  qed
  then obtain k where k: "\<bar>of_int n :: rat\<bar> / 2 powi (max e (- 1022) - 52) = of_int k"
    by (auto simp: m a_def)
  have x: "(of_int n :: rat) \<noteq> 0" using False by simp
  have "a < 2 powi 1024" using a53 by (simp add: order_le_less_trans)
  then have b: "\<bar>of_int n :: rat\<bar> < 2 powi 1024" by (simp add: a_def)
  have "roundD (of_int n) = roundAt e (of_int n)"
    using False by (simp add: roundD_def e_def a_def)
  then show ?thesis using roundAt_exact[OF k x b] by simp
qed

section \<open>The run tracker: clearing the start instant\<close>

lemma on_agent_end_clears:
  "fst (on_agent_end opts messages True now (Some start)) = None"
  by (simp add: on_agent_end_def Let_def split: sum.splits)

lemma on_agent_end_idle:
  "on_agent_end opts messages hasUI now None = (None, Silent)"
  by (simp add: on_agent_end_def)

text \<open>
  C1, as stated, fails: with no active destination (\<open>hasUI\<close> false) the end handler
  returns before it touches \<open>agentStartMs\<close>, so a run in progress stays recorded.
\<close>

theorem C1_no_destination_keeps_start:
  "fst (on_agent_end DEFAULTS [] False 1000 (Some 0)) = Some 0"
  by (simp add: on_agent_end_def)

text \<open>
  C1, amended: a run-end handled while a run is in progress and the delivery context has
  an active destination always clears the start instant, whatever the handler then does
  (notification, suppression by a gate, or an error of the formatter); with no active
  destination the handler changes nothing and emits nothing.
\<close>

theorem C1_end_clears_start_with_destination:
  "fst (on_agent_end opts messages True now (Some start)) = None \<and>
   on_agent_end opts messages False now agentStartMs = (agentStartMs, Silent)"
  by (simp add: on_agent_end_clears) (simp add: on_agent_end_def)

text \<open>
  C10: with an active destination and a start instant set, the start instant is reset on
  every path through the handler, in particular on the paths where the elapsed-time gate
  or a threshold gate suppresses the notification; a second run-end right after it finds
  no run in progress and emits nothing.
\<close>

theorem C10_reset_before_gates:
  "fst (on_agent_end opts messages True now (Some start)) = None \<and>
   on_agent_end opts messages' hasUI' now'
     (fst (on_agent_end opts messages True now (Some start))) = (None, Silent)"
  by (simp add: on_agent_end_clears on_agent_end_idle)

section \<open>The aggregator as a fold\<close>

lemma isRecord_iff: "isRecord v \<longleftrightarrow> (\<exists>ps. v = JObj ps)"
  by (cases v) (simp_all add: isRecord_def typeOf_def)

lemma getProp_JObj: "returns ps k \<Longrightarrow> getProp (JObj ps) k = Inr (field ps k)"
  by (auto simp: getProp_def field_def returns_def split: option.splits sum.splits)

lemma getProp_throws: "\<not> returns ps k \<Longrightarrow> \<exists>e. getProp (JObj ps) k = Inl e"
  by (auto simp: getProp_def returns_def split: option.splits sum.splits)

lemma field_JStr: "field ps k = JStr s \<longleftrightarrow> map_of ps k = Some (Inr (JStr s))"
  by (auto simp: field_def split: option.splits sum.splits)

lemma isAssistantMessage_eq:
  "readsQuietly m \<Longrightarrow> isAssistantMessage m = Inr (isAssistantRecord m)"
  by (cases m)
     (auto simp: isAssistantMessage_def isAssistantRecord_def isRecord_iff getProp_JObj
        bindE_def field_JStr readsQuietly_def split: if_splits)

lemma contribution_None: "\<not> isAssistantRecord m \<Longrightarrow> contribution m = None"
  by (cases m) (simp_all add: contribution_def isAssistantRecord_def)

lemma aggregateStep_eq:
  assumes q: "readsQuietly m"
  shows "aggregateStep acc m =
           Inr (case contribution m of None \<Rightarrow> acc | Some c \<Rightarrow> addUsage acc c)"
proof (cases "isAssistantRecord m")
  case False
  then show ?thesis
    by (simp add: aggregateStep_def isAssistantMessage_eq[OF q] bindE_def contribution_None)
next
  case True
  then obtain ps where m: "m = JObj ps"
    and role: "map_of ps ''role'' = Some (Inr (JStr ''assistant''))"
    by (cases m) (simp_all add: isAssistantRecord_def)
  have fr: "field ps ''role'' = JStr ''assistant''" using role by (simp add: field_JStr)
  have rr: "returns ps ''role''" using role by (simp add: returns_def)
  have ru: "returns ps ''usage''" using q by (simp add: readsQuietly_def m fr rr split: if_splits)
  have am: "isAssistantMessage (JObj ps) = Inr True"
    using isAssistantMessage_eq[OF q] True by (simp add: m)
  show ?thesis
  proof (cases "isRecord (field ps ''usage'')")
    case False
    then have "contribution m = None"
      by (cases "field ps ''usage''") (simp_all add: contribution_def m role isRecord_iff)
    then show ?thesis using False
      by (simp add: aggregateStep_def am bindE_def m getProp_JObj[OF ru])
  next
    case u: True
    then obtain us where us: "field ps ''usage'' = JObj us" by (auto simp: isRecord_iff)
    have r5: "returns us ''input''" "returns us ''output''" "returns us ''cacheRead''"
      "returns us ''cacheWrite''" "returns us ''totalTokens''"
      using q by (simp_all add: readsQuietly_def m fr rr ru us)
    have c: "contribution m = Some \<lparr>input = readNumber (field us ''input''),
                                output_n = readNumber (field us ''output''),
                                cacheRead = readNumber (field us ''cacheRead''),
                                cacheWrite = readNumber (field us ''cacheWrite''),
                                totalTokens = readNumber (field us ''totalTokens'')\<rparr>"
      by (simp add: contribution_def m role us)
    show ?thesis using u unfolding c
      by (cases acc)
         (simp add: aggregateStep_def am bindE_def m
           getProp_JObj[OF ru] getProp_JObj[OF r5(1)] getProp_JObj[OF r5(2)]
           getProp_JObj[OF r5(3)] getProp_JObj[OF r5(4)] getProp_JObj[OF r5(5)] us
           addUsage_def Let_def)
  qed
qed

lemma aggregateStep_raises:
  assumes q: "\<not> readsQuietly m"
  shows "\<exists>e. aggregateStep acc m = Inl e"
proof -
  from q obtain ps where m: "m = JObj ps" by (cases m) (simp_all add: readsQuietly_def)
  show ?thesis
  proof (cases "returns ps ''role''")
    case False
    then obtain e where "getProp (JObj ps) ''role'' = Inl e" using getProp_throws by blast
    then show ?thesis
      by (simp add: aggregateStep_def isAssistantMessage_def isRecord_iff bindE_def m)
  next
    case rr: True
    have fr: "field ps ''role'' = JStr ''assistant''"
      using q rr by (simp add: readsQuietly_def m split: if_splits)
    have am: "isAssistantMessage (JObj ps) = Inr True"
      by (simp add: isAssistantMessage_def isRecord_iff bindE_def getProp_JObj[OF rr] fr)
    show ?thesis
    proof (cases "returns ps ''usage''")
      case False
      then obtain e where "getProp (JObj ps) ''usage'' = Inl e" using getProp_throws by blast
      then show ?thesis by (simp add: aggregateStep_def am bindE_def m)
    next
      case ru: True
      from q rr fr ru obtain us where us: "field ps ''usage'' = JObj us"
        and bad: "\<not> list_all (returns us)
                     [''input'', ''output'', ''cacheRead'', ''cacheWrite'', ''totalTokens'']"
        by (cases "field ps ''usage''") (simp_all add: readsQuietly_def m)
      have g: "\<exists>e. getProp (JObj us) k = Inl e" if "\<not> returns us k" for k
        using that by (rule getProp_throws)
      have "\<exists>e. bindE (getProp (JObj us) ''input'') (\<lambda>v1.
              bindE (getProp (JObj us) ''output'') (\<lambda>v2.
              bindE (getProp (JObj us) ''cacheRead'') (\<lambda>v3.
              bindE (getProp (JObj us) ''cacheWrite'') (\<lambda>v4.
              bindE (getProp (JObj us) ''totalTokens'') (\<lambda>v5. Inr (f v1 v2 v3 v4 v5)))))) = Inl e"
        for f :: "jsval \<Rightarrow> jsval \<Rightarrow> jsval \<Rightarrow> jsval \<Rightarrow> jsval \<Rightarrow> Usage"
        using bad g[of "''input''"] g[of "''output''"] g[of "''cacheRead''"]
          g[of "''cacheWrite''"] g[of "''totalTokens''"]
        by (auto simp: bindE_def split: sum.splits)
      then show ?thesis
        by (simp add: aggregateStep_def am m getProp_JObj[OF ru] us isRecord_iff Let_def
            bindE_def[of "Inr x" for x])
    qed
  qed
qed

lemma contribs_Cons:
  "contribs (m # ms) = (case contribution m of None \<Rightarrow> contribs ms | Some c \<Rightarrow> c # contribs ms)"
  by (simp add: contribs_def split: option.splits)

lemma aggregateLoop_eq:
  "list_all readsQuietly ms \<Longrightarrow> aggregateLoop acc ms = Inr (foldl addUsage acc (contribs ms))"
  by (induction ms arbitrary: acc)
     (simp_all add: contribs_def aggregateStep_eq split: option.splits)

lemma aggregateLoop_raises:
  "\<not> list_all readsQuietly ms \<Longrightarrow> \<exists>e. aggregateLoop acc ms = Inl e"
proof (induction ms arbitrary: acc)
  case Nil
  then show ?case by simp
next
  case (Cons m ms)
  show ?case
  proof (cases "readsQuietly m")
    case False
    then obtain e where "aggregateStep acc m = Inl e" using aggregateStep_raises by blast
    then show ?thesis by simp
  next
    case True
    then have "\<not> list_all readsQuietly ms" using Cons.prems by simp
    then show ?thesis using Cons.IH by (simp add: aggregateStep_eq[OF True])
  qed
qed

lemma aggregateLoop_append:
  "aggregateLoop acc (xs @ ys) =
     (case aggregateLoop acc xs of Inl e \<Rightarrow> Inl e | Inr a \<Rightarrow> aggregateLoop a ys)"
  by (induction xs arbitrary: acc) (simp_all split: sum.splits)

lemma aggregateUsage_eq:
  "list_all readsQuietly ms \<Longrightarrow>
   aggregateUsage ms = Inr (foldl addUsage zeroUsage (contribs ms))"
  by (simp add: aggregateUsage_def aggregateLoop_eq)

lemma aggregateUsage_raises:
  "\<not> list_all readsQuietly ms \<Longrightarrow> \<exists>e. aggregateUsage ms = Inl e"
  by (simp add: aggregateUsage_def aggregateLoop_raises)

lemma aggregateUsage_returns:
  "aggregateUsage ms = Inr u \<Longrightarrow> list_all readsQuietly ms"
  using aggregateUsage_raises[of ms] by auto

lemma contribs_append: "contribs (xs @ ys) = contribs xs @ contribs ys"
  by (simp add: contribs_def List.map_filter_def)

lemma returns_plain [simp]: "returns (plain us) k"
  by (induction us) (auto simp: returns_def plain_def split: option.splits sum.splits)

lemma readsQuietly_assistantEvent [simp]: "readsQuietly (assistantEvent us)"
proof -
  have "returns [(''role'', Inr r), (''usage'', Inr v)] k" for r v k
    by (simp add: returns_def)
  then show ?thesis by (simp add: readsQuietly_def assistantEvent_def field_def)
qed

lemma readsQuietly_prim [simp]:
  "readsQuietly JUndefined" "readsQuietly JNull" "readsQuietly (JBool b)"
  "readsQuietly (JNum n)" "readsQuietly (JStr s)" "readsQuietly (JBigInt i)"
  "readsQuietly (JSymbol s)" "readsQuietly JFunction"
  by (simp_all add: readsQuietly_def)

section \<open>Sums of safe integers are exact\<close>

lemma isInt_eq: "isInt x \<Longrightarrow> x = Fin (of_int (intVal x))"
  by (cases x) (auto simp: isInt_def intVal_def val_def)

lemma abs_sum_nonneg: "0 \<le> sum_list (map (\<lambda>x. \<bar>intVal x\<bar>) xs)"
  by (induction xs) auto

lemma sum_list_mset_cong:
  fixes f :: "'a \<Rightarrow> int"
  assumes "mset xs = mset ys"
  shows "sum_list (map f xs) = sum_list (map f ys)"
proof -
  have "sum_mset (mset (map f xs)) = sum_mset (mset (map f ys))" using assms by simp
  then show ?thesis by (simp only: sum_mset_sum_list)
qed

lemma foldl_fadd_exact:
  "list_all isInt xs \<Longrightarrow> \<bar>a\<bar> + sum_list (map (\<lambda>x. \<bar>intVal x\<bar>) xs) \<le> 2 ^ 53 \<Longrightarrow>
   foldl fadd (Fin (of_int a)) xs = Fin (of_int (a + sum_list (map intVal xs)))"
proof (induction xs arbitrary: a)
  case Nil
  then show ?case by simp
next
  case (Cons x xs)
  from Cons.prems(1) have x: "x = Fin (of_int (intVal x))" and xs: "list_all isInt xs"
    by (simp_all add: isInt_eq)
  have b: "\<bar>a + intVal x\<bar> \<le> 2 ^ 53" using Cons.prems(2) abs_sum_nonneg[of xs] by simp
  have "fadd (Fin (of_int a)) x = fadd (Fin (of_int a)) (Fin (of_int (intVal x)))"
    using x by simp
  also have "\<dots> = roundD (of_int (a + intVal x))" by simp
  also have "\<dots> = Fin (of_int (a + intVal x))" using b by (rule roundD_int)
  finally have step: "fadd (Fin (of_int a)) x = Fin (of_int (a + intVal x))" .
  have "\<bar>a + intVal x\<bar> + sum_list (map (\<lambda>x. \<bar>intVal x\<bar>) xs) \<le> 2 ^ 53"
    using Cons.prems(2) by simp
  from Cons.IH[OF xs this] show ?case by (simp add: step add.assoc)
qed

lemma foldl_addUsage_fields:
  "input (foldl addUsage acc cs) = foldl fadd (input acc) (map input cs)"
  "output_n (foldl addUsage acc cs) = foldl fadd (output_n acc) (map output_n cs)"
  "cacheRead (foldl addUsage acc cs) = foldl fadd (cacheRead acc) (map cacheRead cs)"
  "cacheWrite (foldl addUsage acc cs) = foldl fadd (cacheWrite acc) (map cacheWrite cs)"
  "totalTokens (foldl addUsage acc cs) = foldl fadd (totalTokens acc) (map totalTokens cs)"
  by (induction cs arbitrary: acc) (simp_all add: addUsage_def)

lemma safeInts_fold:
  "safeInts xs \<Longrightarrow> foldl fadd (Fin 0) xs = Fin (of_int (sum_list (map intVal xs)))"
  using foldl_fadd_exact[of xs 0] by (simp add: safeInts_def)

lemma safe_foldl: "safeUsages cs \<Longrightarrow> foldl addUsage zeroUsage cs = exactSum cs"
proof -
  assume s: "safeUsages cs"
  have z: "input zeroUsage = Fin 0" "output_n zeroUsage = Fin 0" "cacheRead zeroUsage = Fin 0"
    "cacheWrite zeroUsage = Fin 0" "totalTokens zeroUsage = Fin 0"
    by (simp_all add: zeroUsage_def)
  show ?thesis
    using s
    by (cases "foldl addUsage zeroUsage cs")
       (use foldl_addUsage_fields[of zeroUsage cs] in
         \<open>simp add: z safeUsages_def safeInts_fold exactSum_def comp_def\<close>)
qed

lemma safeInts_append: "safeInts (xs @ ys) \<Longrightarrow> safeInts xs \<and> safeInts ys"
proof -
  assume h: "safeInts (xs @ ys)"
  show ?thesis using h abs_sum_nonneg[of xs] abs_sum_nonneg[of ys] by (simp add: safeInts_def)
qed

lemma safeUsages_append: "safeUsages (xs @ ys) \<Longrightarrow> safeUsages xs \<and> safeUsages ys"
  by (simp add: safeUsages_def) (blast dest: safeInts_append)

lemma abs_sum_list_le: "\<bar>sum_list (map intVal xs)\<bar> \<le> sum_list (map (\<lambda>x. \<bar>intVal x\<bar>) xs)"
  by (induction xs) auto

lemma safeInts_add:
  assumes "safeInts (xs @ ys)"
  shows "fadd (Fin (of_int (sum_list (map intVal xs)))) (Fin (of_int (sum_list (map intVal ys))))
       = Fin (of_int (sum_list (map intVal (xs @ ys))))"
proof -
  have "\<bar>sum_list (map intVal (xs @ ys))\<bar> \<le> 2 ^ 53"
    using assms abs_sum_list_le[of "xs @ ys"] by (simp add: safeInts_def)
  then have "roundD (of_int (sum_list (map intVal (xs @ ys)))) = Fin (of_int (sum_list (map intVal (xs @ ys))))"
    by (rule roundD_int)
  then show ?thesis by simp
qed

lemma exactSum_append:
  "safeUsages (xs @ ys) \<Longrightarrow> addUsage (exactSum xs) (exactSum ys) = exactSum (xs @ ys)"
  using safeInts_add[of "map input xs" "map input ys"]
    safeInts_add[of "map output_n xs" "map output_n ys"]
    safeInts_add[of "map cacheRead xs" "map cacheRead ys"]
    safeInts_add[of "map cacheWrite xs" "map cacheWrite ys"]
    safeInts_add[of "map totalTokens xs" "map totalTokens ys"]
  by (simp add: safeUsages_def addUsage_def exactSum_def comp_def)

section \<open>The aggregator: raising, sign, NaN and overflow\<close>

lemma roundHalfEven_nonneg: "0 \<le> r \<Longrightarrow> 0 \<le> roundHalfEven r"
  by (simp add: roundHalfEven_def Let_def)

lemma roundAt_not_NaN [simp]: "roundAt e x \<noteq> NaN"
  by (simp add: roundAt_def Let_def)

lemma roundD_not_NaN [simp]: "roundD x \<noteq> NaN"
  by (simp add: roundD_def)

lemma roundAt_nonneg: "0 \<le> x \<Longrightarrow> nonNeg (roundAt e x)"
proof -
  assume x: "0 \<le> x"
  have "0 \<le> of_int (roundHalfEven (\<bar>x\<bar> / 2 powi (max e (- 1022) - 52))) * (2::rat) powi (max e (- 1022) - 52)"
    by (intro mult_nonneg_nonneg) (simp_all add: roundHalfEven_nonneg)
  then show ?thesis using x
    by (simp add: roundAt_def Let_def nonNeg_def fle_def flt_def val_def)
qed

lemma roundD_nonneg: "0 \<le> x \<Longrightarrow> nonNeg (roundD x)"
  by (simp add: roundD_def roundAt_nonneg) (simp add: nonNeg_def fle_def flt_def val_def)

lemma nonNeg_cases: "nonNeg x \<longleftrightarrow> x = PInf \<or> x = NegZero \<or> (\<exists>r. x = Fin r \<and> 0 \<le> r)"
  by (cases x) (auto simp: nonNeg_def fle_def flt_def val_def)

lemma fadd_nonNeg: "nonNeg x \<Longrightarrow> nonNeg y \<Longrightarrow> nonNeg (fadd x y)"
  by (auto simp: nonNeg_cases[of x] nonNeg_cases[of y] roundD_nonneg)
     (auto simp: nonNeg_cases)

lemma isFinite_readNumber [simp]: "isFinite (readNumber v)"
  by (cases v) (simp_all add: readNumber_def isFinite_def)

lemma fadd_not_NaN: "x \<noteq> NaN \<Longrightarrow> isFinite y \<Longrightarrow> fadd x y \<noteq> NaN"
  by (cases x; cases y) (simp_all add: isFinite_def)

lemma finite_contribution: "contribution m = Some c \<Longrightarrow> finiteUsage c"
  by (auto simp: contribution_def finiteUsage_def split: jsval.splits if_splits)

lemma finite_contribs: "c \<in> set (contribs ms) \<Longrightarrow> finiteUsage c"
  by (auto simp: contribs_def List.map_filter_def finite_contribution)

lemma foldl_notNaN:
  "notNaNUsage acc \<Longrightarrow> \<forall>c\<in>set cs. finiteUsage c \<Longrightarrow> notNaNUsage (foldl addUsage acc cs)"
proof (induction cs arbitrary: acc)
  case Nil
  then show ?case by simp
next
  case (Cons c cs)
  have "notNaNUsage (addUsage acc c)"
    using Cons.prems by (simp add: notNaNUsage_def addUsage_def finiteUsage_def fadd_not_NaN)
  then show ?case using Cons by simp
qed

lemma foldl_nonNeg:
  "nonNegUsage acc \<Longrightarrow> \<forall>c\<in>set cs. nonNegUsage c \<Longrightarrow> nonNegUsage (foldl addUsage acc cs)"
proof (induction cs arbitrary: acc)
  case Nil
  then show ?case by simp
next
  case (Cons c cs)
  have "nonNegUsage (addUsage acc c)"
    using Cons.prems by (simp add: nonNegUsage_def addUsage_def fadd_nonNeg)
  then show ?case using Cons by simp
qed

lemma roundD_numeral [simp]: "numeral k \<le> (2 ^ 53 :: int) \<Longrightarrow> roundD (numeral k) = Fin (numeral k)"
  using roundD_int[of "numeral k"] by simp

lemma roundD_neg_numeral [simp]:
  "numeral k \<le> (2 ^ 53 :: int) \<Longrightarrow> roundD (- numeral k) = Fin (- numeral k)"
  using roundD_int[of "- numeral k"] by simp

lemma roundD_0 [simp]: "roundD 0 = Fin 0"
  by (simp add: roundD_def)

lemma roundD_1 [simp]: "roundD 1 = Fin 1"
  using roundD_int[of 1] by simp

lemma contribution_assistantEvent:
  "contribution (assistantEvent us) = Some \<lparr>input = readNumber (field (plain us) ''input''),
       output_n = readNumber (field (plain us) ''output''),
       cacheRead = readNumber (field (plain us) ''cacheRead''),
       cacheWrite = readNumber (field (plain us) ''cacheWrite''),
       totalTokens = readNumber (field (plain us) ''totalTokens'')\<rparr>"
  by (simp add: contribution_def assistantEvent_def field_def)

lemma zero_ok: "notNaNUsage zeroUsage" "nonNegUsage zeroUsage"
  by (simp_all add: notNaNUsage_def nonNegUsage_def zeroUsage_def nonNeg_def fle_def flt_def val_def)

lemma contribution_JNull [simp]: "contribution JNull = None"
  by (simp add: contribution_def)

lemma roundD_2_1023: "roundD (2 ^ 1023) = Fin (2 ^ 1023)"
  by (simp add: roundD_at[where e=1023] roundAt_def roundHalfEven_def Let_def)

lemma roundD_2_1024: "roundD (2 ^ 1023 + 2 ^ 1023) = PInf"
  by (simp add: roundD_at[where e=1024] roundAt_def roundHalfEven_def Let_def)

lemma aggregateUsage_throwingEvent: "aggregateUsage (throwingEvent # ms) = Inl Thrown"
  by (simp add: aggregateUsage_def aggregateStep_def isAssistantMessage_def isRecord_def
      typeOf_def getProp_def bindE_def throwingEvent_def)

lemma not_quiet_throwingEvent [simp]: "\<not> readsQuietly throwingEvent"
  by (simp add: readsQuietly_def throwingEvent_def returns_def)

text \<open>
  C2, as stated, fails three times: \<open>readNumber\<close> accepts every finite number, so a
  negative sub-field makes a counter negative; two finite values can add up to Infinity;
  and an event whose role is an accessor that throws makes the aggregator raise, since no
  read is guarded.
\<close>

theorem C2_negative_infinite_or_raised:
  "aggregateUsage [assistantEvent [(''input'', JNum (Fin (- 5)))]] =
     Inr \<lparr>input = Fin (- 5), output_n = Fin 0, cacheRead = Fin 0, cacheWrite = Fin 0,
          totalTokens = Fin 0\<rparr> \<and>
   \<not> nonNeg (Fin (- 5)) \<and>
   aggregateUsage [assistantEvent [(''output'', JNum (Fin (2 ^ 1023)))],
                   assistantEvent [(''output'', JNum (Fin (2 ^ 1023)))]] =
     Inr \<lparr>input = Fin 0, output_n = PInf, cacheRead = Fin 0, cacheWrite = Fin 0,
          totalTokens = Fin 0\<rparr> \<and>
   \<not> isFinite PInf \<and>
   aggregateUsage [throwingEvent] = Inl Thrown"
  by (simp add: aggregateUsage_eq contribs_def contribution_assistantEvent field_def plain_def
      readNumber_def isFinite_def zeroUsage_def addUsage_def nonNeg_def fle_def flt_def val_def
      roundD_2_1023[simplified] roundD_2_1024[simplified] aggregateUsage_throwingEvent)

text \<open>
  C2, amended: the aggregator returns exactly when no property read it performs on the
  events throws (so on every sequence of plain data, however malformed), and raises
  otherwise. When it returns, none of the five counters is NaN; when every value read from
  the included events is non-negative, all five are non-negative; and when the values read
  are integers whose absolute values sum, per counter, to at most 2^53, all five are
  finite.
\<close>

theorem C2_aggregate_safety:
  "(list_all readsQuietly ms \<longrightarrow>
      (\<exists>u. aggregateUsage ms = Inr u \<and> notNaNUsage u \<and>
           (list_all nonNegUsage (contribs ms) \<longrightarrow> nonNegUsage u) \<and>
           (safeUsages (contribs ms) \<longrightarrow> finiteUsage u))) \<and>
   (\<not> list_all readsQuietly ms \<longrightarrow> (\<exists>e. aggregateUsage ms = Inl e))"
proof -
  have fin: "finiteUsage (foldl addUsage zeroUsage (contribs ms))" if "safeUsages (contribs ms)"
    using that by (simp add: safe_foldl finiteUsage_def exactSum_def isFinite_def)
  show ?thesis
    by (simp add: aggregateUsage_eq aggregateUsage_raises foldl_notNaN foldl_nonNeg zero_ok
        finite_contribs list_all_iff fin)
qed

theorem C2_aggregate_safety_witness:
  "list_all readsQuietly [assistantEvent [(''input'', JNum (Fin 3))], JNull] \<and>
   list_all nonNegUsage (contribs [assistantEvent [(''input'', JNum (Fin 3))], JNull]) \<and>
   safeUsages (contribs [assistantEvent [(''input'', JNum (Fin 3))], JNull]) \<and>
   (\<exists>u. aggregateUsage [assistantEvent [(''input'', JNum (Fin 3))], JNull] = Inr u \<and>
        notNaNUsage u \<and> nonNegUsage u \<and> finiteUsage u) \<and>
   \<not> list_all readsQuietly [JNull, throwingEvent] \<and>
   (\<exists>e. aggregateUsage [JNull, throwingEvent] = Inl e)"
proof -
  have q: "list_all readsQuietly [assistantEvent [(''input'', JNum (Fin 3))], JNull]"
    by simp
  have c: "contribs [assistantEvent [(''input'', JNum (Fin 3))], JNull] =
             [zeroUsage\<lparr>input := Fin 3\<rparr>]"
    by (simp add: contribs_def contribution_assistantEvent field_def plain_def
        readNumber_def isFinite_def zeroUsage_def)
  have h: "list_all nonNegUsage (contribs [assistantEvent [(''input'', JNum (Fin 3))], JNull])"
    by (simp add: c zeroUsage_def nonNegUsage_def nonNeg_def fle_def flt_def val_def)
  have s: "safeUsages (contribs [assistantEvent [(''input'', JNum (Fin 3))], JNull])"
    by (simp add: c zeroUsage_def safeUsages_def safeInts_def isInt_def intVal_def val_def)
  have n: "\<not> list_all readsQuietly [JNull, throwingEvent]"
    by simp
  show ?thesis
    using q h s n
      C2_aggregate_safety[of "[assistantEvent [(''input'', JNum (Fin 3))], JNull]"]
      C2_aggregate_safety[of "[JNull, throwingEvent]"]
    by blast
qed

section \<open>Additivity and order independence\<close>

lemma mset_contribs: "mset xs = mset ys \<Longrightarrow> mset (contribs xs) = mset (contribs ys)"
  by (simp add: contribs_def List.map_filter_def)

lemma safeInts_mset: "mset xs = mset ys \<Longrightarrow> safeInts xs = safeInts ys"
proof -
  assume h: "mset xs = mset ys"
  then have "set xs = set ys" by (rule mset_eq_setD)
  moreover have "sum_list (map (\<lambda>x. \<bar>intVal x\<bar>) xs) = sum_list (map (\<lambda>x. \<bar>intVal x\<bar>) ys)"
    using h by (rule sum_list_mset_cong)
  ultimately show ?thesis by (simp add: safeInts_def list_all_iff)
qed

lemma safeUsages_mset: "mset xs = mset ys \<Longrightarrow> safeUsages xs = safeUsages ys"
proof -
  assume h: "mset xs = mset ys"
  have "safeInts (map f xs) = safeInts (map f ys)" for f :: "Usage \<Rightarrow> number"
    by (rule safeInts_mset) (simp add: h)
  then show ?thesis by (simp add: safeUsages_def)
qed

lemma exactSum_mset: "mset xs = mset ys \<Longrightarrow> exactSum xs = exactSum ys"
proof -
  assume h: "mset xs = mset ys"
  have "sum_list (map f xs) = sum_list (map f ys)" for f :: "Usage \<Rightarrow> int"
    using h by (rule sum_list_mset_cong)
  then show ?thesis by (simp add: exactSum_def)
qed

lemma quiet_mset: "mset xs = mset ys \<Longrightarrow> list_all readsQuietly xs = list_all readsQuietly ys"
  using mset_eq_setD[of xs ys] by (simp add: list_all_iff)

text \<open>
  C3, amended: when no property read on the events of \<open>A ++ B\<close> throws and the values
  read from its included events are integers whose absolute values sum, per counter, to
  at most 2^53, the aggregate of \<open>A ++ B\<close> is the field-wise sum of the aggregates of
  \<open>A\<close> and \<open>B\<close>, and every reordering of \<open>A ++ B\<close> has the same aggregate.
\<close>

theorem C3_additive_on_safe_integers:
  assumes "list_all readsQuietly (A @ B)" and "safeUsages (contribs (A @ B))"
  shows "(\<exists>ua ub. aggregateUsage A = Inr ua \<and> aggregateUsage B = Inr ub \<and>
            aggregateUsage (A @ B) = Inr (addUsage ua ub)) \<and>
         (\<forall>C. mset C = mset (A @ B) \<longrightarrow> aggregateUsage C = aggregateUsage (A @ B))"
proof -
  have agg: "aggregateUsage X = Inr (exactSum (contribs X))"
    if "list_all readsQuietly X" "safeUsages (contribs X)" for X
    using that by (simp add: aggregateUsage_eq safe_foldl)
  have q: "list_all readsQuietly A" "list_all readsQuietly B" using assms(1) by simp_all
  have ab: "safeUsages (contribs A @ contribs B)" using assms(2) by (simp add: contribs_append)
  then have a: "safeUsages (contribs A)" and b: "safeUsages (contribs B)"
    using safeUsages_append by blast+
  have "exactSum (contribs (A @ B)) = addUsage (exactSum (contribs A)) (exactSum (contribs B))"
    using ab by (simp only: contribs_append exactSum_append)
  then have 1: "aggregateUsage (A @ B) =
      Inr (addUsage (exactSum (contribs A)) (exactSum (contribs B)))"
    by (simp only: agg[OF assms])
  have 2: "aggregateUsage C = aggregateUsage (A @ B)" if "mset C = mset (A @ B)" for C
  proof -
    have m: "mset (contribs C) = mset (contribs (A @ B))" using that by (rule mset_contribs)
    then have s: "safeUsages (contribs C)" using assms(2) safeUsages_mset by blast
    have qc: "list_all readsQuietly C" using assms(1) quiet_mset[OF that] by simp
    show ?thesis by (simp only: agg[OF qc s] agg[OF assms] exactSum_mset[OF m])
  qed
  have 3: "aggregateUsage A = Inr (exactSum (contribs A))"
    "aggregateUsage B = Inr (exactSum (contribs B))"
    by (rule agg[OF q(1) a], rule agg[OF q(2) b])
  from 2 have 4: "\<forall>C. mset C = mset (A @ B) \<longrightarrow> aggregateUsage C = aggregateUsage (A @ B)"
    by blast
  show ?thesis using 1 3 4 by blast
qed

lemma contribution_inputEvent:
  "contribution (inputEvent k) = Some (zeroUsage\<lparr>input := Fin k\<rparr>)"
  by (simp add: inputEvent_def contribution_assistantEvent field_def plain_def readNumber_def
      isFinite_def zeroUsage_def)

lemma readsQuietly_inputEvent [simp]: "readsQuietly (inputEvent k)"
  by (simp add: inputEvent_def)

lemma roundD_tie: "roundD (2 ^ 53 + 1) = Fin (2 ^ 53)"
  by (simp add: roundD_at[where e=53] roundAt_def roundHalfEven_def Let_def)

lemma roundD_even: "roundD (2 ^ 53 + 2) = Fin (2 ^ 53 + 2)"
  by (simp add: roundD_at[where e=53] roundAt_def roundHalfEven_def Let_def)

text \<open>
  C3, as stated, fails: the counters are binary64 sums, and \<open>2^53 + 1\<close> rounds back to
  \<open>2^53\<close>. With A = [2^53] and B = [1, 1] as input counts, the aggregate of \<open>A ++ B\<close>
  has input 2^53 while the sum of the two aggregates has 2^53 + 2; and the reordering
  [1, 1, 2^53] aggregates to 2^53 + 2.
\<close>

theorem C3_rounding_breaks_additivity:
  "aggregateUsage ([inputEvent (2 ^ 53)] @ [inputEvent 1, inputEvent 1]) =
     Inr (zeroUsage\<lparr>input := Fin (2 ^ 53)\<rparr>) \<and>
   aggregateUsage [inputEvent (2 ^ 53)] = Inr (zeroUsage\<lparr>input := Fin (2 ^ 53)\<rparr>) \<and>
   aggregateUsage [inputEvent 1, inputEvent 1] = Inr (zeroUsage\<lparr>input := Fin 2\<rparr>) \<and>
   addUsage (zeroUsage\<lparr>input := Fin (2 ^ 53)\<rparr>) (zeroUsage\<lparr>input := Fin 2\<rparr>) =
     zeroUsage\<lparr>input := Fin (2 ^ 53 + 2)\<rparr> \<and>
   aggregateUsage [inputEvent 1, inputEvent 1, inputEvent (2 ^ 53)] =
     Inr (zeroUsage\<lparr>input := Fin (2 ^ 53 + 2)\<rparr>) \<and>
   zeroUsage\<lparr>input := Fin (2 ^ 53)\<rparr> \<noteq> zeroUsage\<lparr>input := Fin (2 ^ 53 + 2)\<rparr>"
  by (simp add: aggregateUsage_eq contribs_def contribution_inputEvent addUsage_def zeroUsage_def
      roundD_tie[simplified] roundD_even[simplified])

theorem C3_additive_on_safe_integers_witness:
  "list_all readsQuietly ([inputEvent 1] @ [inputEvent 2, JNull]) \<and>
   safeUsages (contribs ([inputEvent 1] @ [inputEvent 2, JNull])) \<and>
   (\<exists>ua ub. aggregateUsage [inputEvent 1] = Inr ua \<and>
            aggregateUsage [inputEvent 2, JNull] = Inr ub \<and>
            aggregateUsage ([inputEvent 1] @ [inputEvent 2, JNull]) = Inr (addUsage ua ub)) \<and>
   aggregateUsage [inputEvent 2, JNull, inputEvent 1] =
     aggregateUsage ([inputEvent 1] @ [inputEvent 2, JNull])"
proof -
  have q: "list_all readsQuietly ([inputEvent 1] @ [inputEvent 2, JNull])"
    by simp
  have h: "safeUsages (contribs ([inputEvent 1] @ [inputEvent 2, JNull]))"
    by (simp add: contribs_def contribution_inputEvent safeUsages_def safeInts_def isInt_def
        intVal_def val_def zeroUsage_def)
  have m: "mset [inputEvent 2, JNull, inputEvent 1] = mset ([inputEvent 1] @ [inputEvent 2, JNull])"
    by simp
  from C3_additive_on_safe_integers[OF q h]
  have "(\<exists>ua ub. aggregateUsage [inputEvent 1] = Inr ua \<and>
            aggregateUsage [inputEvent 2, JNull] = Inr ub \<and>
            aggregateUsage ([inputEvent 1] @ [inputEvent 2, JNull]) = Inr (addUsage ua ub))"
    and "aggregateUsage [inputEvent 2, JNull, inputEvent 1] =
           aggregateUsage ([inputEvent 1] @ [inputEvent 2, JNull])"
    using m by blast+
  then show ?thesis using q h by blast
qed

section \<open>Which events contribute\<close>

lemma aggregateUsage_skip:
  "readsQuietly m \<Longrightarrow> contribution m = None \<Longrightarrow>
   aggregateUsage (A @ m # B) = aggregateUsage (A @ B)"
  by (simp add: aggregateUsage_def aggregateLoop_append aggregateStep_eq split: sum.splits)

lemma aggregateUsage_snoc:
  "readsQuietly m \<Longrightarrow> contribution m = Some c \<Longrightarrow>
   aggregateUsage (A @ [m]) =
     (case aggregateUsage A of Inl e \<Rightarrow> Inl e | Inr ua \<Rightarrow> Inr (addUsage ua c))"
  by (simp add: aggregateUsage_def aggregateLoop_append aggregateStep_eq split: sum.splits)

lemma contribution_no_usage:
  "\<not> isRecord (field ps ''usage'') \<Longrightarrow> contribution (JObj ps) = None"
  by (cases "field ps ''usage''") (simp_all add: contribution_def isRecord_iff)

lemma contribution_usage:
  "isAssistantRecord (JObj ps) \<Longrightarrow> field ps ''usage'' = JObj us \<Longrightarrow>
   contribution (JObj ps) = Some \<lparr>input = readNumber (field us ''input''),
       output_n = readNumber (field us ''output''),
       cacheRead = readNumber (field us ''cacheRead''),
       cacheWrite = readNumber (field us ''cacheWrite''),
       totalTokens = readNumber (field us ''totalTokens'')\<rparr>"
  by (simp add: contribution_def isAssistantRecord_def)

text \<open>
  C6, as stated, fails for an event whose role is an accessor that throws: it is not an
  assistant record, yet the filter raises on it and the aggregate of two such events is
  an exception, not the all-zero counters.
\<close>

theorem C6_throwing_role_is_not_skipped:
  "\<not> isAssistantRecord throwingEvent \<and>
   isAssistantMessage throwingEvent = Inl Thrown \<and>
   aggregateUsage [throwingEvent, throwingEvent] = Inl Thrown"
  by (simp add: aggregateUsage_def aggregateStep_def isAssistantMessage_def isRecord_def
      typeOf_def getProp_def bindE_def throwingEvent_def isAssistantRecord_def)

text \<open>
  C6, amended to events whose property reads do not throw. The filter accepts exactly the
  structured records whose role reads as "assistant", and the aggregate of a sequence is
  the sum, from the all-zero counters and from left to right, of the contributions of its
  events. An event that is not an assistant record contributes nothing: removing it from
  a sequence does not change the aggregate. An assistant record with a usage record
  contributes \<open>readNumber\<close> of its five sub-fields, which is 0 for a missing, non-numeric
  or non-finite sub-field: appending it to a sequence adds these to the aggregate. An
  assistant record without a usage record contributes nothing. Two events that are not
  assistant records aggregate to the all-zero counters. A sequence holding an event with
  a read that throws has no aggregate: the aggregator raises.
\<close>

theorem C6_only_assistant_records_contribute:
  "(readsQuietly m \<longrightarrow> isAssistantMessage m = Inr (isAssistantRecord m)) \<and>
   (list_all readsQuietly ms \<longrightarrow>
      aggregateUsage ms = Inr (foldl addUsage zeroUsage (contribs ms))) \<and>
   (readsQuietly m \<longrightarrow> \<not> isAssistantRecord m \<longrightarrow>
      contribution m = None \<and> aggregateUsage (A @ m # B) = aggregateUsage (A @ B)) \<and>
   (readsQuietly (JObj ps) \<longrightarrow> isAssistantRecord (JObj ps) \<longrightarrow> field ps ''usage'' = JObj us \<longrightarrow>
      contribution (JObj ps) =
        Some \<lparr>input = readNumber (field us ''input''),
              output_n = readNumber (field us ''output''),
              cacheRead = readNumber (field us ''cacheRead''),
              cacheWrite = readNumber (field us ''cacheWrite''),
              totalTokens = readNumber (field us ''totalTokens'')\<rparr> \<and>
      aggregateUsage (A @ [JObj ps]) =
        (case aggregateUsage A of
           Inl e \<Rightarrow> Inl e
         | Inr ua \<Rightarrow> Inr (addUsage ua \<lparr>input = readNumber (field us ''input''),
                           output_n = readNumber (field us ''output''),
                           cacheRead = readNumber (field us ''cacheRead''),
                           cacheWrite = readNumber (field us ''cacheWrite''),
                           totalTokens = readNumber (field us ''totalTokens'')\<rparr>))) \<and>
   (readsQuietly (JObj ps) \<longrightarrow> isAssistantRecord (JObj ps) \<longrightarrow>
      \<not> isRecord (field ps ''usage'') \<longrightarrow>
      contribution (JObj ps) = None \<and>
      aggregateUsage (A @ JObj ps # B) = aggregateUsage (A @ B)) \<and>
   readNumber v = (case v of JNum n \<Rightarrow> if isFinite n then n else Fin 0 | _ \<Rightarrow> Fin 0) \<and>
   readNumber JUndefined = Fin 0 \<and>
   (readsQuietly m1 \<longrightarrow> readsQuietly m2 \<longrightarrow> \<not> isAssistantRecord m1 \<longrightarrow> \<not> isAssistantRecord m2 \<longrightarrow>
      aggregateUsage [m1, m2] = Inr zeroUsage) \<and>
   (\<not> readsQuietly m \<longrightarrow> (\<exists>e. aggregateUsage (A @ m # B) = Inl e))"
proof -
  have 1: "contribution m = None \<and> aggregateUsage (A @ m # B) = aggregateUsage (A @ B)"
    if "readsQuietly m" "\<not> isAssistantRecord m"
    using that by (simp add: contribution_None aggregateUsage_skip)
  have 2: "contribution (JObj ps) =
        Some \<lparr>input = readNumber (field us ''input''),
              output_n = readNumber (field us ''output''),
              cacheRead = readNumber (field us ''cacheRead''),
              cacheWrite = readNumber (field us ''cacheWrite''),
              totalTokens = readNumber (field us ''totalTokens'')\<rparr> \<and>
      aggregateUsage (A @ [JObj ps]) =
        (case aggregateUsage A of
           Inl e \<Rightarrow> Inl e
         | Inr ua \<Rightarrow> Inr (addUsage ua \<lparr>input = readNumber (field us ''input''),
                           output_n = readNumber (field us ''output''),
                           cacheRead = readNumber (field us ''cacheRead''),
                           cacheWrite = readNumber (field us ''cacheWrite''),
                           totalTokens = readNumber (field us ''totalTokens'')\<rparr>))"
    if "readsQuietly (JObj ps)" "isAssistantRecord (JObj ps)" "field ps ''usage'' = JObj us"
    using aggregateUsage_snoc[OF that(1) contribution_usage[OF that(2,3)]]
      contribution_usage[OF that(2,3)] by simp
  have 3: "contribution (JObj ps) = None \<and>
      aggregateUsage (A @ JObj ps # B) = aggregateUsage (A @ B)"
    if "readsQuietly (JObj ps)" "\<not> isRecord (field ps ''usage'')"
    using that by (simp add: contribution_no_usage aggregateUsage_skip)
  have 4: "aggregateUsage [m1, m2] = Inr zeroUsage"
    if "readsQuietly m1" "readsQuietly m2" "\<not> isAssistantRecord m1" "\<not> isAssistantRecord m2"
    using that by (simp add: aggregateUsage_eq contribs_def contribution_None)
  have 5: "\<exists>e. aggregateUsage (A @ m # B) = Inl e" if "\<not> readsQuietly m"
    using that by (simp add: aggregateUsage_raises)
  have 6: "readNumber v = (case v of JNum n \<Rightarrow> if isFinite n then n else Fin 0 | _ \<Rightarrow> Fin 0)"
    "readNumber JUndefined = Fin 0"
    by (simp_all add: readNumber_def)
  show ?thesis
    using 1 2 3 4 5 6 isAssistantMessage_eq[of m] aggregateUsage_eq[of ms] by blast
qed

theorem C6_only_assistant_records_contribute_witness:
  "readsQuietly (JStr ''assistant'') \<and> \<not> isAssistantRecord (JStr ''assistant'') \<and>
   isAssistantMessage (JStr ''assistant'') = Inr False \<and>
   list_all readsQuietly [inputEvent 1, JStr ''assistant'', inputEvent 2] \<and>
   aggregateUsage [inputEvent 1, JStr ''assistant'', inputEvent 2] =
     Inr (zeroUsage\<lparr>input := Fin 3\<rparr>) \<and>
   aggregateUsage ([inputEvent 1] @ JStr ''assistant'' # [inputEvent 2]) =
     aggregateUsage ([inputEvent 1] @ [inputEvent 2]) \<and>
   readsQuietly (JObj [(''role'', Inr (JStr ''assistant'')),
      (''usage'', Inr (JObj [(''input'', Inr (JNum NaN)), (''output'', Inr (JNum (Fin 7)))]))]) \<and>
   isAssistantRecord (JObj [(''role'', Inr (JStr ''assistant'')),
      (''usage'', Inr (JObj [(''input'', Inr (JNum NaN)), (''output'', Inr (JNum (Fin 7)))]))]) \<and>
   aggregateUsage ([inputEvent 1] @ [JObj [(''role'', Inr (JStr ''assistant'')),
      (''usage'', Inr (JObj [(''input'', Inr (JNum NaN)), (''output'', Inr (JNum (Fin 7)))]))]]) =
     Inr (zeroUsage\<lparr>input := Fin 1, output_n := Fin 7\<rparr>) \<and>
   readsQuietly (JObj [(''role'', Inr (JStr ''assistant'')), (''usage'', Inr (JStr ''none''))]) \<and>
   isAssistantRecord (JObj [(''role'', Inr (JStr ''assistant'')), (''usage'', Inr (JStr ''none''))]) \<and>
   aggregateUsage ([inputEvent 1] @
       JObj [(''role'', Inr (JStr ''assistant'')), (''usage'', Inr (JStr ''none''))] # [inputEvent 2]) =
     aggregateUsage ([inputEvent 1] @ [inputEvent 2]) \<and>
   readNumber (JNum PInf) = Fin 0 \<and>
   readsQuietly (JObj [(''role'', Inr (JStr ''user''))]) \<and>
   \<not> isAssistantRecord (JObj [(''role'', Inr (JStr ''user''))]) \<and>
   aggregateUsage [JNull, JObj [(''role'', Inr (JStr ''user''))]] = Inr zeroUsage \<and>
   \<not> readsQuietly throwingEvent \<and>
   (\<exists>e. aggregateUsage ([inputEvent 1] @ throwingEvent # [inputEvent 2]) = Inl e)"
proof -
  let ?p = "[(''role'', Inr (JStr ''assistant'')),
      (''usage'', Inr (JObj [(''input'', Inr (JNum NaN)), (''output'', Inr (JNum (Fin 7)))]))]"
  let ?u = "[(''input'', Inr (JNum NaN)), (''output'', Inr (JNum (Fin 7)))]"
  let ?n = "[(''role'', Inr (JStr ''assistant'')), (''usage'', Inr (JStr ''none''))]"
  let ?w = "JObj [(''role'', Inr (JStr ''user''))]"
  have a: "readsQuietly (JStr ''assistant'')" "\<not> isAssistantRecord (JStr ''assistant'')"
    "\<not> isAssistantRecord JNull" "readsQuietly JNull" "readsQuietly ?w" "\<not> isAssistantRecord ?w"
    by (simp_all add: isAssistantRecord_def readsQuietly_def returns_def field_def)
  have l: "list_all readsQuietly [inputEvent 1, JStr ''assistant'', inputEvent 2]"
    by simp
  have b: "readsQuietly (JObj ?p)" "isAssistantRecord (JObj ?p)" "field ?p ''usage'' = JObj ?u"
    by (simp_all add: isAssistantRecord_def readsQuietly_def returns_def field_def)
  have c: "readsQuietly (JObj ?n)" "isAssistantRecord (JObj ?n)"
    "\<not> isRecord (field ?n ''usage'')"
    by (simp_all add: isAssistantRecord_def readsQuietly_def returns_def field_def isRecord_def
        typeOf_def)
  have r: "\<lparr>input = readNumber (field ?u ''input''), output_n = readNumber (field ?u ''output''),
            cacheRead = readNumber (field ?u ''cacheRead''),
            cacheWrite = readNumber (field ?u ''cacheWrite''),
            totalTokens = readNumber (field ?u ''totalTokens'')\<rparr> = zeroUsage\<lparr>output_n := Fin 7\<rparr>"
    by (simp add: field_def readNumber_def isFinite_def zeroUsage_def)
  have f: "foldl addUsage zeroUsage (contribs [inputEvent 1, JStr ''assistant'', inputEvent 2]) =
             zeroUsage\<lparr>input := Fin 3\<rparr>"
    "addUsage (zeroUsage\<lparr>input := Fin 1\<rparr>) (zeroUsage\<lparr>output_n := Fin 7\<rparr>) =
       zeroUsage\<lparr>input := Fin 1, output_n := Fin 7\<rparr>"
    by (simp_all add: contribs_def contribution_inputEvent contribution_None[OF a(2)]
        addUsage_def zeroUsage_def)
  have one: "aggregateUsage [inputEvent 1] = Inr (zeroUsage\<lparr>input := Fin 1\<rparr>)"
    by (simp add: aggregateUsage_eq contribs_def contribution_inputEvent addUsage_def
        zeroUsage_def)
  note t1 = C6_only_assistant_records_contribute[of "JStr ''assistant''"
      "[inputEvent 1, JStr ''assistant'', inputEvent 2]" "[inputEvent 1]" "[inputEvent 2]"
      ?p ?u "JNum PInf" JNull ?w]
  note t2 = C6_only_assistant_records_contribute[of throwingEvent "[]" "[inputEvent 1]"
      "[inputEvent 2]" ?n "[]" JUndefined JNull JNull]
  have s1: "isAssistantMessage (JStr ''assistant'') = Inr False"
    using t1 a by simp
  have s2: "aggregateUsage [inputEvent 1, JStr ''assistant'', inputEvent 2] =
     Inr (zeroUsage\<lparr>input := Fin 3\<rparr>)"
    using t1 l by (simp only: f)
  have s3: "aggregateUsage ([inputEvent 1] @ JStr ''assistant'' # [inputEvent 2]) =
     aggregateUsage ([inputEvent 1] @ [inputEvent 2])"
    using t1 a(1,2) by blast
  have s4: "aggregateUsage ([inputEvent 1] @ [JObj ?p]) =
     Inr (zeroUsage\<lparr>input := Fin 1, output_n := Fin 7\<rparr>)"
    using t1 b by (simp add: r one f(2))
  have s5: "aggregateUsage ([inputEvent 1] @ JObj ?n # [inputEvent 2]) =
     aggregateUsage ([inputEvent 1] @ [inputEvent 2])"
    using t2 c by blast
  have s6: "readNumber (JNum PInf) = Fin 0"
    using t1 by (simp add: isFinite_def)
  have s7: "aggregateUsage [JNull, ?w] = Inr zeroUsage"
    using t1 a by blast
  have s8: "\<exists>e. aggregateUsage ([inputEvent 1] @ throwingEvent # [inputEvent 2]) = Inl e"
    using t2 not_quiet_throwingEvent by blast
  show ?thesis
    using a l b c s1 s2 s3 s4 s5 s6 s7 s8 not_quiet_throwingEvent by blast
qed

section \<open>The formatter's segments\<close>

lemma fractionDigits_const [simp]:
  "fractionDigits (Fin 0) = Inr 0" "fractionDigits (Fin 2) = Inr 2"
  by (simp_all add: fractionDigits_def)

lemma toFixed_const [simp]:
  "toFixed x (Fin 0) = Inr (fixedString x 0)" "toFixed x (Fin 2) = Inr (fixedString x 2)"
  by (simp_all add: toFixed_def bindE_def)

lemma toFixed_precision:
  "toFixed x (precision opts) =
     (case fractionDigits (precision opts) of
        Inl e \<Rightarrow> Inl e
      | Inr f \<Rightarrow> Inr (fixedString x (precisionDigits opts)))"
  by (simp add: toFixed_def bindE_def precisionDigits_def split: sum.splits)

lemma formatParts_eq:
  "formatParts args =
     (case fractionDigits (precision (options args)) of
        Inl e \<Rightarrow> Inl e
      | Inr f \<Rightarrow> Inr (segments args))"
  by (cases "fractionDigits (precision (options args))")
     (simp_all add: formatParts_def toFixed_precision bindE_def Let_def segments_def
        throughputSeg_def outputSeg_def inputSeg_def cacheSeg_def hitRateSeg_def totalSeg_def
        ratioSeg_def elapsedSeg_def)

lemma formatNotification_eq:
  "formatNotification args =
     (case fractionDigits (precision (options args)) of
        Inl e \<Rightarrow> Inl e
      | Inr f \<Rightarrow> Inr (joinWith '', '' (segments args)))"
  by (simp add: formatNotification_def formatParts_eq bindE_def split: sum.splits)

lemma fractionDigits_error: "fractionDigits fd = Inl e \<Longrightarrow> e = RangeError"
  by (auto simp: fractionDigits_def Let_def split: number.splits if_splits)

lemma seg_setToggles [simp]:
  "throughputSeg (setToggles c t args) = throughputSeg args"
  "outputSeg (setToggles c t args) = outputSeg args"
  "inputSeg (setToggles c t args) = inputSeg args"
  "cacheSeg (setToggles c t args) = cacheSeg args"
  "hitRateSeg (setToggles c t args) = hitRateSeg args"
  "totalSeg (setToggles c t args) = totalSeg args"
  "ratioSeg (setToggles c t args) = ratioSeg args"
  "elapsedSeg (setToggles c t args) = elapsedSeg args"
  by (simp_all add: setToggles_def throughputSeg_def outputSeg_def inputSeg_def
      cacheSeg_def hitRateSeg_def totalSeg_def ratioSeg_def elapsedSeg_def precisionDigits_def)

lemma subseq_optional:
  "subseq (p @ (if c then C else []) @ (if t then T else []) @ s) (p @ C @ T @ s)"
  by (intro list_emb_append_mono) simp_all

lemma segments_toggle_subseq:
  "subseq (segments (setToggles c t args)) (segments (setToggles True True args))"
proof -
  have u: "usage (setToggles c t args) = usage args"
    "showCache (options (setToggles c t args)) = c"
    "showTotals (options (setToggles c t args)) = t" for c t
    by (simp_all add: setToggles_def)
  show ?thesis
    unfolding segments_def u seg_setToggles if_True
    by (rule subseq_optional)
qed

lemma eps_val: "eps = Fin (4835703278458517 / 2 ^ 82)"
  by (simp add: eps_def roundD_at[where e="-30"] roundAt_def roundHalfEven_def Let_def)

lemmas num_eval = fdiv_def fmul_def flt_def fle_def fgt_def mathTrunc_def val_def
  isInf_def isNeg_def isFinite_def zeroS_def infS_def

lemma digitsOf_numeral:
  "digitsOf (numeral k) =
     (if numeral k < (10::nat) then [digitChar (numeral k)]
      else digitsOf (numeral k div 10) @ [digitChar (numeral k mod 10)])"
  by (rule digitsOf.simps)

lemma digitsOf_small: "digitsOf 0 = ''0''" "digitsOf 1 = ''1''" "digitsOf (Suc 0) = ''1''"
  by (simp_all add: digitsOf.simps digitChar_def)

lemma group3_Cons:
  "group3 (x # xs) =
     (if length xs < 3 then x # xs
      else group3 (take (length xs - 2) (x # xs)) @ '','' @ drop (length xs - 2) (x # xs))"
  by (subst group3.simps) (auto simp: Suc_diff_le)

lemma group3_Nil: "group3 [] = []"
  by (simp add: group3.simps)

lemma integerDigits_exact: "a \<le> 2 ^ 53 \<Longrightarrow> integerDigits a = digitsOf (nat \<lfloor>a\<rfloor>)"
  by (simp add: integerDigits_def)

lemmas str_eval = fixedString_def fixedDigits_def toLocaleString_def fmtInt_def
  integerDigits_exact digitsOf_numeral digitsOf_small group3_Cons group3_Nil digitChar_def Let_def

lemmas round_eval = roundAt_def roundHalfEven_def

lemma mathMax_eps: "0 < r \<Longrightarrow> 1 / 1000000 \<le> r \<Longrightarrow> mathMax (Fin r) eps = Fin r"
  by (simp add: eps_val mathMax_def flt_def val_def)

lemma ex1_tps: "throughputSeg \<lparr>elapsedSeconds = Fin 5,
       usage = \<lparr>input = Fin 1000, output_n = Fin 500, cacheRead = Fin 200, cacheWrite = Fin 50,
                totalTokens = Fin 1750\<rparr>,
       options = \<lparr>minOutputTokensToNotify = a, minSecondsToNotify = b, precision = Fin 1,
                  showCache = True, showTotals = True\<rparr>\<rparr> = ''TPS 100.0 tok/s''"
  by (simp add: throughputSeg_def precisionDigits_def fractionDigits_def mathMax_eps num_eval str_eval)

lemma ex1_hit: "hitRateSeg \<lparr>elapsedSeconds = Fin 5,
       usage = \<lparr>input = Fin 1000, output_n = Fin 500, cacheRead = Fin 200, cacheWrite = Fin 50,
                totalTokens = Fin 1750\<rparr>,
       options = \<lparr>minOutputTokensToNotify = a, minSecondsToNotify = b, precision = Fin 1,
                  showCache = True, showTotals = True\<rparr>\<rparr> = ''cache% 17%''"
  by (simp add: hitRateSeg_def num_eval str_eval roundD_at[where e="-3"] roundD_at[where e=4] round_eval)

lemma ex1_ratio: "ratioSeg \<lparr>elapsedSeconds = Fin 5,
       usage = \<lparr>input = Fin 1000, output_n = Fin 500, cacheRead = Fin 200, cacheWrite = Fin 50,
                totalTokens = Fin 1750\<rparr>,
       options = \<lparr>minOutputTokensToNotify = a, minSecondsToNotify = b, precision = Fin 1,
                  showCache = True, showTotals = True\<rparr>\<rparr> = ''o/i 0.50''"
  by (simp add: ratioSeg_def num_eval str_eval roundD_at[where e="-1"] round_eval)

lemma ex1_rest: "outputSeg \<lparr>elapsedSeconds = Fin 5,
       usage = \<lparr>input = Fin 1000, output_n = Fin 500, cacheRead = Fin 200, cacheWrite = Fin 50,
                totalTokens = Fin 1750\<rparr>,
       options = \<lparr>minOutputTokensToNotify = a, minSecondsToNotify = b, precision = Fin 1,
                  showCache = True, showTotals = True\<rparr>\<rparr> = ''out 500''"
  "inputSeg \<lparr>elapsedSeconds = Fin 5,
       usage = \<lparr>input = Fin 1000, output_n = Fin 500, cacheRead = Fin 200, cacheWrite = Fin 50,
                totalTokens = Fin 1750\<rparr>,
       options = \<lparr>minOutputTokensToNotify = a, minSecondsToNotify = b, precision = Fin 1,
                  showCache = True, showTotals = True\<rparr>\<rparr> = ''in 1,000''"
  "cacheSeg \<lparr>elapsedSeconds = Fin 5,
       usage = \<lparr>input = Fin 1000, output_n = Fin 500, cacheRead = Fin 200, cacheWrite = Fin 50,
                totalTokens = Fin 1750\<rparr>,
       options = \<lparr>minOutputTokensToNotify = a, minSecondsToNotify = b, precision = Fin 1,
                  showCache = True, showTotals = True\<rparr>\<rparr> = ''cache r/w 200/50''"
  "totalSeg \<lparr>elapsedSeconds = Fin 5,
       usage = \<lparr>input = Fin 1000, output_n = Fin 500, cacheRead = Fin 200, cacheWrite = Fin 50,
                totalTokens = Fin 1750\<rparr>,
       options = \<lparr>minOutputTokensToNotify = a, minSecondsToNotify = b, precision = Fin 1,
                  showCache = True, showTotals = True\<rparr>\<rparr> = ''total 1,750''"
  "elapsedSeg \<lparr>elapsedSeconds = Fin 5,
       usage = \<lparr>input = Fin 1000, output_n = Fin 500, cacheRead = Fin 200, cacheWrite = Fin 50,
                totalTokens = Fin 1750\<rparr>,
       options = \<lparr>minOutputTokensToNotify = a, minSecondsToNotify = b, precision = Fin 1,
                  showCache = True, showTotals = True\<rparr>\<rparr> = ''5.0s''"
  by (simp_all add: outputSeg_def inputSeg_def cacheSeg_def totalSeg_def elapsedSeg_def
      precisionDigits_def fractionDigits_def num_eval str_eval)

lemma ex2_segs:
  "throughputSeg \<lparr>elapsedSeconds = Fin 2, usage = zeroUsage, options = DEFAULTS\<rparr> = ''TPS 0.0 tok/s''"
  "outputSeg \<lparr>elapsedSeconds = Fin 2, usage = zeroUsage, options = DEFAULTS\<rparr> = ''out 0''"
  "inputSeg \<lparr>elapsedSeconds = Fin 2, usage = zeroUsage, options = DEFAULTS\<rparr> = ''in 0''"
  "cacheSeg \<lparr>elapsedSeconds = Fin 2, usage = zeroUsage, options = DEFAULTS\<rparr> = ''cache r/w 0/0''"
  "totalSeg \<lparr>elapsedSeconds = Fin 2, usage = zeroUsage, options = DEFAULTS\<rparr> = ''total 0''"
  "elapsedSeg \<lparr>elapsedSeconds = Fin 2, usage = zeroUsage, options = DEFAULTS\<rparr> = ''2.0s''"
  by (simp_all add: throughputSeg_def outputSeg_def inputSeg_def cacheSeg_def totalSeg_def
      elapsedSeg_def zeroUsage_def DEFAULTS_def precisionDigits_def fractionDigits_def
      mathMax_eps num_eval str_eval)

text \<open>
  C4: the two end-to-end examples of the specification (number formatting in the en-US
  locale). The first holds for any values of the two threshold options.
\<close>

theorem C4_examples:
  "formatNotification \<lparr>elapsedSeconds = Fin 5,
       usage = \<lparr>input = Fin 1000, output_n = Fin 500, cacheRead = Fin 200, cacheWrite = Fin 50,
                totalTokens = Fin 1750\<rparr>,
       options = \<lparr>minOutputTokensToNotify = a, minSecondsToNotify = b, precision = Fin 1,
                  showCache = True, showTotals = True\<rparr>\<rparr> =
     Inr ''TPS 100.0 tok/s, out 500, in 1,000, cache r/w 200/50, cache% 17%, total 1,750, o/i 0.50, 5.0s'' \<and>
   formatNotification \<lparr>elapsedSeconds = Fin 2, usage = zeroUsage, options = DEFAULTS\<rparr> =
     Inr ''TPS 0.0 tok/s, out 0, in 0, cache r/w 0/0, total 0, 2.0s''"
proof -
  have p: "fractionDigits (Fin 1) = Inr 1" by (simp add: fractionDigits_def)
  have g1: "fgt (fadd (Fin 1000) (Fin 200)) (Fin 0)" "fgt (Fin 1000) (Fin 0)"
    by (simp_all add: fgt_def flt_def val_def)
  have g2: "\<not> fgt (fadd (Fin 0) (Fin 0)) (Fin 0)" "\<not> fgt (Fin 0) (Fin 0)"
    by (simp_all add: fgt_def flt_def val_def)
  have 1: "segments \<lparr>elapsedSeconds = Fin 5,
       usage = \<lparr>input = Fin 1000, output_n = Fin 500, cacheRead = Fin 200, cacheWrite = Fin 50,
                totalTokens = Fin 1750\<rparr>,
       options = \<lparr>minOutputTokensToNotify = a, minSecondsToNotify = b, precision = Fin 1,
                  showCache = True, showTotals = True\<rparr>\<rparr> =
     [''TPS 100.0 tok/s'', ''out 500'', ''in 1,000'', ''cache r/w 200/50'', ''cache% 17%'',
      ''total 1,750'', ''o/i 0.50'', ''5.0s'']"
    unfolding segments_def ex1_tps ex1_hit ex1_ratio ex1_rest
    using g1 by simp
  have 2: "segments \<lparr>elapsedSeconds = Fin 2, usage = zeroUsage, options = DEFAULTS\<rparr> =
     [''TPS 0.0 tok/s'', ''out 0'', ''in 0'', ''cache r/w 0/0'', ''total 0'', ''2.0s'']"
    unfolding segments_def ex2_segs
    using g2 by (simp add: zeroUsage_def DEFAULTS_def)
  show ?thesis
    unfolding formatNotification_eq 1 2
    by (simp add: p DEFAULTS_def)
qed

text \<open>
  C5: the formatted line is the segments joined by \<open>", "\<close>, in the order throughput,
  output, input, cache r/w and cache% (the first iff \<open>showCache\<close>, the second iff also
  \<open>input + cacheRead > 0\<close>), total and o/i (the first iff \<open>showTotals\<close>, the second iff
  also \<open>input > 0\<close>), elapsed seconds; for any setting of the two toggles the segments are
  a subsequence, in the same order, of the segments with both toggles on. (When the
  precision is no digit count in 0..100, \<open>toFixed\<close> raises and there is no line.)
\<close>

theorem C5_segments_in_fixed_order:
  "formatNotification args =
     (case fractionDigits (precision (options args)) of
        Inl e \<Rightarrow> Inl RangeError
      | Inr f \<Rightarrow> Inr (joinWith '', ''
          ([throughputSeg args, outputSeg args, inputSeg args] @
           (if showCache (options args)
            then cacheSeg args #
                 (if fgt (fadd (input (usage args)) (cacheRead (usage args))) (Fin 0)
                  then [hitRateSeg args] else [])
            else []) @
           (if showTotals (options args)
            then totalSeg args #
                 (if fgt (input (usage args)) (Fin 0) then [ratioSeg args] else [])
            else []) @
           [elapsedSeg args]))) \<and>
   subseq (segments (setToggles c t args)) (segments (setToggles True True args))"
  using fractionDigits_error[of "precision (options args)"]
  by (simp add: formatNotification_eq segments_toggle_subseq split: sum.splits)
     (simp add: segments_def)

text \<open>
  C9: the formatter is a function of its three inputs: arguments that agree on the elapsed
  seconds, the usage counters and the options give the same result, character for
  character.
\<close>

theorem C9_format_deterministic:
  "elapsedSeconds a = elapsedSeconds b \<Longrightarrow> usage a = usage b \<Longrightarrow> options a = options b \<Longrightarrow>
   formatNotification a = formatNotification b"
  by (cases a; cases b) simp

theorem C9_format_deterministic_witness:
  "formatNotification \<lparr>elapsedSeconds = Fin 2, usage = zeroUsage, options = DEFAULTS\<rparr> =
   formatNotification \<lparr>elapsedSeconds = fadd (Fin 2) NegZero,
      usage = addUsage zeroUsage \<lparr>input = NegZero, output_n = NegZero, cacheRead = NegZero,
                cacheWrite = NegZero, totalTokens = NegZero\<rparr>,
      options = DEFAULTS\<lparr>precision := fadd (Fin 1) NegZero\<rparr>\<rparr>"
  by (rule C9_format_deterministic) (simp_all add: DEFAULTS_def addUsage_def zeroUsage_def)

section \<open>The elapsed-time gate\<close>

lemma roundHalfEven_ge: "of_int k \<le> r \<Longrightarrow> k \<le> roundHalfEven r"
proof -
  assume "of_int k \<le> r"
  then have "k \<le> \<lfloor>r\<rfloor>" by (simp add: le_floor_iff)
  then show ?thesis by (simp add: roundHalfEven_def Let_def)
qed

lemma roundAt_sign:
  assumes "1 \<le> \<bar>x\<bar> / 2 powi (max e (- 1022) - 52)"
  shows "if x < 0 then flt (roundAt e x) (Fin 0) else flt (Fin 0) (roundAt e x)"
proof -
  define q :: rat where "q = 2 powi (max e (- 1022) - 52)"
  have q: "0 < q" by (simp add: q_def)
  have "of_int 1 \<le> \<bar>x\<bar> / q" using assms by (simp add: q_def)
  then have "1 \<le> roundHalfEven (\<bar>x\<bar> / q)" by (rule roundHalfEven_ge)
  then have "(0::rat) < of_int (roundHalfEven (\<bar>x\<bar> / q))" by simp
  then have r: "0 < of_int (roundHalfEven (\<bar>x\<bar> / q)) * q" using q by simp
  define m :: rat where "m = of_int (roundHalfEven (\<bar>x\<bar> / q)) * q"
  have m: "0 < m" using r by (simp add: m_def)
  have "roundAt e x =
      (if 2 powi 1024 \<le> m then (if x < 0 then NInf else PInf)
       else if m = 0 then (if x < 0 then NegZero else Fin 0)
       else Fin (if x < 0 then - m else m))"
    unfolding roundAt_def Let_def q_def[symmetric] m_def[symmetric] ..
  then show ?thesis using m by (simp add: flt_def val_def)
qed

lemma roundD_int_sign:
  "n \<noteq> 0 \<Longrightarrow>
   (if n < 0 then flt (roundD (of_int n)) (Fin 0) else flt (Fin 0) (roundD (of_int n)))"
proof -
  assume n: "n \<noteq> 0"
  define a :: rat where "a = \<bar>of_int n\<bar>"
  have a1: "1 \<le> a" using n by (simp add: a_def flip: of_int_abs)
  have apos: "0 < a" using a1 by simp
  define e where "e = expo a"
  have lo: "2 powi e \<le> a" and hi: "a < 2 powi (e + 1)"
    using expo_bounds[OF apos] by (simp_all add: e_def)
  have "(2::rat) powi 0 < 2 powi (e + 1)" using a1 hi by simp
  then have "0 < e + 1" by (simp only: pow2_less_iff)
  then have m: "max e (- 1022) = e" by simp
  have "(2::rat) powi (e - 52) \<le> 2 powi e" by (simp add: pow2_le_iff)
  then have "(2::rat) powi (e - 52) \<le> a" using lo by simp
  then have "1 \<le> a / 2 powi (e - 52)" by (simp add: pos_le_divide_eq)
  then have "1 \<le> \<bar>of_int n :: rat\<bar> / 2 powi (max e (- 1022) - 52)" by (simp add: m a_def)
  from roundAt_sign[OF this]
  have "if (of_int n :: rat) < 0 then flt (roundAt (expo \<bar>of_int n\<bar>) (of_int n)) (Fin 0)
        else flt (Fin 0) (roundAt (expo \<bar>of_int n\<bar>) (of_int n))"
    unfolding e_def a_def .
  moreover have "roundD (of_int n) = roundAt (expo \<bar>of_int n\<bar>) (of_int n)"
    using n unfolding roundD_def by simp
  moreover have "(of_int n :: rat) < 0 \<longleftrightarrow> n < 0" by simp
  ultimately show ?thesis by (simp only:)
qed

lemma fsub_ints:
  "fsub (Fin (of_int a)) (Fin (of_int b)) = (if b = 0 then Fin (of_int a) else roundD (of_int (a - b)))"
  by (simp add: fsub_def)

lemma elapsed_gate:
  "fle (fsub (Fin (of_int now)) (Fin (of_int start))) (Fin 0) \<longleftrightarrow> now \<le> start"
proof (cases "start = 0")
  case True
  have "fsub (Fin (of_int now)) (Fin (of_int start)) = Fin (of_int now)"
    using True fsub_ints[of now start] by simp
  then show ?thesis using True by (auto simp: fle_def flt_def val_def)
next
  case s: False
  have r: "fsub (Fin (of_int now)) (Fin (of_int start)) = roundD (of_int (now - start))"
    using s by (simp add: fsub_ints)
  show ?thesis
  proof (cases "now = start")
    case True
    then show ?thesis unfolding r by (simp add: fle_def flt_def val_def roundD_def)
  next
    case False
    then have n: "now - start \<noteq> 0" by simp
    show ?thesis
    proof (cases "now < start")
      case True
      then have "flt (roundD (of_int (now - start))) (Fin 0)"
        using roundD_int_sign[OF n] by simp
      then show ?thesis using True unfolding r fle_def
        by (auto simp: flt_def split: if_splits)
    next
      case False
      then have "flt (Fin 0) (roundD (of_int (now - start)))"
        using roundD_int_sign[OF n] by simp
      then show ?thesis using False \<open>now \<noteq> start\<close> unfolding r fle_def by simp
    qed
  qed
qed

section \<open>The run tracker: when the sink is called\<close>

lemma contribution_outputEvent:
  "contribution (outputEvent k) = Some (zeroUsage\<lparr>output_n := Fin k\<rparr>)"
  by (simp add: outputEvent_def contribution_assistantEvent field_def plain_def readNumber_def
      isFinite_def zeroUsage_def)

lemma readsQuietly_outputEvent [simp]: "readsQuietly (outputEvent k)"
  by (simp add: outputEvent_def)

lemma aggregate_outputEvent:
  "numeral k \<le> (2 ^ 53 :: int) \<Longrightarrow>
   aggregateUsage [outputEvent (numeral k)] = Inr (zeroUsage\<lparr>output_n := Fin (numeral k)\<rparr>)"
  by (simp add: aggregateUsage_eq contribs_def contribution_outputEvent addUsage_def zeroUsage_def)

lemma on_agent_end_running:
  assumes "aggregateUsage messages = Inr u"
  shows "on_agent_end opts messages hasUI now (Some start) =
    (if \<not> hasUI then (Some start, Silent)
     else (None,
       if now \<le> start then Silent
       else if flt (output_n u) (minOutputTokensToNotify opts) then Silent
       else if flt (fdiv (fsub (Fin (of_int now)) (Fin (of_int start))) (Fin 1000))
                 (minSecondsToNotify opts) then Silent
       else (case fractionDigits (precision opts) of
               Inl e \<Rightarrow> Raised RangeError
             | Inr p \<Rightarrow> Notify (joinWith '', ''
                 (segments \<lparr>elapsedSeconds =
                              fdiv (fsub (Fin (of_int now)) (Fin (of_int start))) (Fin 1000),
                            usage = u, options = opts\<rparr>)) ''info'')))"
  using fractionDigits_error[of "precision opts"]
  by (simp add: on_agent_end_def Let_def assms elapsed_gate formatNotification_eq
      split: sum.splits)

lemma fle_not_flt: "x \<noteq> NaN \<Longrightarrow> y \<noteq> NaN \<Longrightarrow> fle y x \<longleftrightarrow> \<not> flt x y"
  by (simp add: fle_def)

lemma aggregate_output_notNaN: "aggregateUsage messages = Inr u \<Longrightarrow> output_n u \<noteq> NaN"
proof -
  assume a: "aggregateUsage messages = Inr u"
  then have "u = foldl addUsage zeroUsage (contribs messages)"
    using aggregateUsage_eq[OF aggregateUsage_returns[OF a]] by simp
  then show ?thesis
    using foldl_notNaN[of zeroUsage "contribs messages"] zero_ok(1) finite_contribs
    by (auto simp: notNaNUsage_def)
qed

lemma roundD_not_NaN' [simp]: "NaN \<noteq> roundD x"
  using roundD_not_NaN[of x] by metis

lemma elapsedSeconds_notNaN:
  "fdiv (fsub (Fin (of_int now)) (Fin (of_int start))) (Fin 1000) \<noteq> NaN"
proof -
  have "fsub (Fin (of_int now)) (Fin (of_int start)) \<noteq> NaN"
    by (simp add: fsub_ints)
  then show ?thesis
    by (cases "fsub (Fin (of_int now)) (Fin (of_int start))")
       (simp_all add: fdiv_def isInf_def val_def zeroS_def infS_def isNeg_def)
qed

text \<open>
  C8, as stated, fails in one direction: all four gates can pass without the sink being
  called. With \<open>precision = 101\<close> a run of 5 seconds with 500 output tokens passes every
  gate, and the handler raises the RangeError of \<open>toFixed\<close> instead of notifying.
\<close>

theorem C8_gates_pass_but_no_notification:
  "aggregateUsage [outputEvent 500] = Inr (zeroUsage\<lparr>output_n := Fin 500\<rparr>) \<and>
   fgt (fsub (Fin 5000) (Fin 0)) (Fin 0) \<and>
   fle (minOutputTokensToNotify (DEFAULTS\<lparr>precision := Fin 101\<rparr>)) (Fin 500) \<and>
   fdiv (fsub (Fin 5000) (Fin 0)) (Fin 1000) = Fin 5 \<and>
   fle (minSecondsToNotify (DEFAULTS\<lparr>precision := Fin 101\<rparr>)) (Fin 5) \<and>
   on_agent_end (DEFAULTS\<lparr>precision := Fin 101\<rparr>) [outputEvent 500] True 5000 (Some 0) =
     (None, Raised RangeError)"
proof -
  have a: "aggregateUsage [outputEvent 500] = Inr (zeroUsage\<lparr>output_n := Fin 500\<rparr>)"
    by (simp add: aggregate_outputEvent)
  have e: "fsub (Fin 5000) (Fin 0) = Fin 5000" by (simp add: fsub_def)
  have s: "fdiv (fsub (Fin 5000) (Fin 0)) (Fin 1000) = Fin 5"
    by (simp add: e fdiv_def isInf_def val_def)
  have s': "fdiv (fsub (Fin (of_int 5000)) (Fin (of_int 0))) (Fin 1000) = Fin 5"
    by (simp add: fsub_def fdiv_def isInf_def val_def)
  show ?thesis
    unfolding on_agent_end_running[OF a] s' a s
    by (simp add: e DEFAULTS_def zeroUsage_def fgt_def fle_def flt_def val_def fractionDigits_def)
qed

text \<open>
  C8, amended: on a run-end while a run is in progress, the run's messages aggregating
  to the counters \<open>u\<close>, the sink is called (with the formatted line and severity
  "info") iff the delivery context has an active destination,
  the clock has advanced since the start, the aggregated output is not below
  \<open>minOutputTokensToNotify\<close>, the elapsed seconds are not below \<open>minSecondsToNotify\<close>
  (for thresholds other than NaN: output >= threshold and seconds >= threshold), and
  \<open>precision\<close> converts to a digit count in 0..100; if the gates pass and the precision
  does not convert, the handler raises a RangeError and emits nothing. If a gate fails
  nothing is emitted: with a threshold of 10 an output of 5 gives no call whatever the
  times are. A run-end with no run in progress emits nothing and raises nothing.
\<close>

theorem C8_notification_gates:
  assumes "aggregateUsage messages = Inr u"
  shows "((\<exists>msg. snd (on_agent_end opts messages hasUI now (Some start)) = Notify msg ''info'') \<longleftrightarrow>
            hasUI \<and> start < now \<and>
            \<not> flt (output_n u) (minOutputTokensToNotify opts) \<and>
            \<not> flt (fdiv (fsub (Fin (of_int now)) (Fin (of_int start))) (Fin 1000))
                  (minSecondsToNotify opts) \<and>
            (\<exists>p. fractionDigits (precision opts) = Inr p)) \<and>
         (hasUI \<and> start < now \<and>
            \<not> flt (output_n u) (minOutputTokensToNotify opts) \<and>
            \<not> flt (fdiv (fsub (Fin (of_int now)) (Fin (of_int start))) (Fin 1000))
                  (minSecondsToNotify opts) \<longrightarrow>
          snd (on_agent_end opts messages hasUI now (Some start)) =
            (case fractionDigits (precision opts) of
               Inl e \<Rightarrow> Raised RangeError
             | Inr p \<Rightarrow> Notify (joinWith '', ''
                 (segments \<lparr>elapsedSeconds =
                              fdiv (fsub (Fin (of_int now)) (Fin (of_int start))) (Fin 1000),
                            usage = u, options = opts\<rparr>)) ''info'')) \<and>
         (minOutputTokensToNotify opts \<noteq> NaN \<longrightarrow>
            (flt (output_n u) (minOutputTokensToNotify opts) \<longleftrightarrow>
             \<not> fle (minOutputTokensToNotify opts) (output_n u))) \<and>
         (minSecondsToNotify opts \<noteq> NaN \<longrightarrow>
            (flt (fdiv (fsub (Fin (of_int now)) (Fin (of_int start))) (Fin 1000))
                 (minSecondsToNotify opts) \<longleftrightarrow>
             \<not> fle (minSecondsToNotify opts)
                   (fdiv (fsub (Fin (of_int now)) (Fin (of_int start))) (Fin 1000)))) \<and>
         (minOutputTokensToNotify opts = Fin 10 \<longrightarrow> output_n u = Fin 5 \<longrightarrow>
            snd (on_agent_end opts messages hasUI now agentStartMs) = Silent) \<and>
         on_agent_end opts messages hasUI now None = (None, Silent)"
proof -
  note r = on_agent_end_running[OF assms]
  have 1: "(\<exists>msg. snd (on_agent_end opts messages hasUI now (Some start)) = Notify msg ''info'') \<longleftrightarrow>
            hasUI \<and> start < now \<and>
            \<not> flt (output_n u) (minOutputTokensToNotify opts) \<and>
            \<not> flt (fdiv (fsub (Fin (of_int now)) (Fin (of_int start))) (Fin 1000))
                  (minSecondsToNotify opts) \<and>
            (\<exists>p. fractionDigits (precision opts) = Inr p)"
    unfolding r by (auto split: sum.splits)
  have 2: "snd (on_agent_end opts messages hasUI now (Some start)) =
            (case fractionDigits (precision opts) of
               Inl e \<Rightarrow> Raised RangeError
             | Inr p \<Rightarrow> Notify (joinWith '', ''
                 (segments \<lparr>elapsedSeconds =
                              fdiv (fsub (Fin (of_int now)) (Fin (of_int start))) (Fin 1000),
                            usage = u, options = opts\<rparr>)) ''info'')"
    if "hasUI \<and> start < now \<and>
            \<not> flt (output_n u) (minOutputTokensToNotify opts) \<and>
            \<not> flt (fdiv (fsub (Fin (of_int now)) (Fin (of_int start))) (Fin 1000))
                  (minSecondsToNotify opts)"
    unfolding r using that by simp
  have 3: "flt (output_n u) (minOutputTokensToNotify opts) \<longleftrightarrow>
             \<not> fle (minOutputTokensToNotify opts) (output_n u)"
    if "minOutputTokensToNotify opts \<noteq> NaN"
    using that aggregate_output_notNaN[OF assms] by (simp add: fle_def)
  have 4: "flt (fdiv (fsub (Fin (of_int now)) (Fin (of_int start))) (Fin 1000))
                 (minSecondsToNotify opts) \<longleftrightarrow>
             \<not> fle (minSecondsToNotify opts)
                   (fdiv (fsub (Fin (of_int now)) (Fin (of_int start))) (Fin 1000))"
    if "minSecondsToNotify opts \<noteq> NaN"
    using that elapsedSeconds_notNaN[of now start] by (simp add: fle_def)
  have 5: "snd (on_agent_end opts messages hasUI now agentStartMs) = Silent"
    if "minOutputTokensToNotify opts = Fin 10" "output_n u = Fin 5"
  proof (cases agentStartMs)
    case None
    then show ?thesis by (simp add: on_agent_end_idle)
  next
    case (Some st)
    have "flt (output_n u) (minOutputTokensToNotify opts)"
      using that by (simp add: flt_def val_def)
    then show ?thesis unfolding Some on_agent_end_running[OF assms] by simp
  qed
  show ?thesis using 1 2 3 4 5 on_agent_end_idle by blast
qed

lemma run_500_segments:
  "segments \<lparr>elapsedSeconds = Fin 5, usage = zeroUsage\<lparr>output_n := Fin 500\<rparr>,
             options = DEFAULTS\<rparr> =
     [''TPS 100.0 tok/s'', ''out 500'', ''in 0'', ''cache r/w 0/0'', ''total 0'', ''5.0s'']"
  by (simp add: segments_def throughputSeg_def outputSeg_def inputSeg_def cacheSeg_def
      totalSeg_def elapsedSeg_def zeroUsage_def DEFAULTS_def precisionDigits_def
      fractionDigits_def mathMax_eps num_eval str_eval)

theorem C8_notification_gates_witness:
  "aggregateUsage [outputEvent 500] = Inr (zeroUsage\<lparr>output_n := Fin 500\<rparr>) \<and>
   snd (on_agent_end DEFAULTS [outputEvent 500] True 5000 (Some 0)) =
     Notify ''TPS 100.0 tok/s, out 500, in 0, cache r/w 0/0, total 0, 5.0s'' ''info'' \<and>
   aggregateUsage [outputEvent 5] = Inr (zeroUsage\<lparr>output_n := Fin 5\<rparr>) \<and>
   snd (on_agent_end (DEFAULTS\<lparr>minOutputTokensToNotify := Fin 10\<rparr>) [outputEvent 5] True 5000
          (Some 0)) = Silent"
proof -
  have a: "aggregateUsage [outputEvent 500] = Inr (zeroUsage\<lparr>output_n := Fin 500\<rparr>)"
    by (simp add: aggregate_outputEvent)
  have b: "aggregateUsage [outputEvent 5] = Inr (zeroUsage\<lparr>output_n := Fin 5\<rparr>)"
    by (simp add: aggregate_outputEvent)
  have s: "fdiv (fsub (Fin (of_int 5000)) (Fin (of_int 0))) (Fin 1000) = Fin 5"
    by (simp add: fsub_def fdiv_def isInf_def val_def)
  have g: "\<not> flt (output_n (zeroUsage\<lparr>output_n := Fin 500\<rparr>)) (minOutputTokensToNotify DEFAULTS)"
    "\<not> flt (Fin 5) (minSecondsToNotify DEFAULTS)"
    "fractionDigits (precision DEFAULTS) = Inr 1"
    by (simp_all add: flt_def val_def DEFAULTS_def fractionDigits_def)
  have h: "minOutputTokensToNotify (DEFAULTS\<lparr>minOutputTokensToNotify := Fin 10\<rparr>) = Fin 10"
    "output_n (zeroUsage\<lparr>output_n := Fin 5\<rparr>) = Fin 5"
    by simp_all
  have 1: "snd (on_agent_end DEFAULTS [outputEvent 500] True 5000 (Some 0)) =
     Notify ''TPS 100.0 tok/s, out 500, in 0, cache r/w 0/0, total 0, 5.0s'' ''info''"
    using C8_notification_gates[OF a, of DEFAULTS True 5000 0] g
    unfolding s by (simp add: run_500_segments)
  have 2: "snd (on_agent_end (DEFAULTS\<lparr>minOutputTokensToNotify := Fin 10\<rparr>) [outputEvent 5] True 5000
          (Some 0)) = Silent"
    using C8_notification_gates[OF b, of "DEFAULTS\<lparr>minOutputTokensToNotify := Fin 10\<rparr>"
        True 5000 0 "Some 0"] h by blast
  show ?thesis using a b 1 2 by blast
qed

section \<open>The throughput segment\<close>

lemma digitChar_props: "d < 10 \<Longrightarrow> isDigit (digitChar d) \<and> digitVal (digitChar d) = d"
proof -
  assume "d < 10"
  then have "d = 0 \<or> d = 1 \<or> d = 2 \<or> d = 3 \<or> d = 4 \<or> d = 5 \<or> d = 6 \<or> d = 7 \<or> d = 8 \<or> d = 9"
    by arith
  then show ?thesis
    by (elim disjE) (simp_all add: digitChar_def isDigit_def digitVal_def)
qed

lemma digitsOf_isDigit: "list_all isDigit (digitsOf n)"
proof (induction n rule: digitsOf.induct)
  case (1 n)
  show ?case
  proof (cases "n < 10")
    case True
    then show ?thesis by (subst digitsOf.simps) (simp add: digitChar_props)
  next
    case False
    then show ?thesis using "1.IH" by (subst digitsOf.simps) (simp add: digitChar_props)
  qed
qed

lemma digitsOf_nonempty: "digitsOf n \<noteq> []"
  by (subst digitsOf.simps) simp

lemma digitsValue_snoc: "digitsValue (ds @ [c]) = 10 * digitsValue ds + digitVal c"
  by (simp add: digitsValue_def)

lemma digitsValue_digitsOf: "digitsValue (digitsOf n) = n"
proof (induction n rule: digitsOf.induct)
  case (1 n)
  show ?case
  proof (cases "n < 10")
    case True
    then show ?thesis
      by (subst digitsOf.simps) (simp add: digitsValue_def digitChar_props)
  next
    case False
    then show ?thesis using "1.IH"
      by (subst digitsOf.simps) (simp add: digitsValue_snoc digitChar_props)
  qed
qed

lemma digitsValue_zeros: "digitsValue (replicate k CHR ''0'' @ ds) = digitsValue ds"
proof -
  have "foldl (\<lambda>v c. 10 * v + digitVal c) 0 (replicate k CHR ''0'') = 0"
    by (induction k) (simp_all add: digitVal_def)
  then show ?thesis by (simp add: digitsValue_def)
qed

lemma fixedDigits_shape:
  "\<exists>ip fr. fixedDigits a f = ip @ (if f = 0 then [] else ''.'' @ fr) \<and> ip \<noteq> [] \<and>
     length fr = f \<and> list_all isDigit (ip @ fr) \<and>
     digitsValue (ip @ fr) = nat \<lfloor>a * 10 ^ f + 1 / 2\<rfloor>"
proof (cases "f = 0")
  case True
  show ?thesis
    by (rule exI[of _ "digitsOf (nat \<lfloor>a * 10 ^ f + 1 / 2\<rfloor>)"], rule exI[of _ "[]"])
       (simp add: True fixedDigits_def Let_def digitsOf_nonempty digitsOf_isDigit
          digitsValue_digitsOf)
next
  case False
  define n where "n = nat \<lfloor>a * 10 ^ f + 1 / 2\<rfloor>"
  define m where "m = digitsOf n"
  define m' where "m' = (if length m \<le> f then replicate (f + 1 - length m) CHR ''0'' @ m else m)"
  have k: "f < length m'" by (simp add: m'_def)
  have fd: "fixedDigits a f = take (length m' - f) m' @ ''.'' @ drop (length m' - f) m'"
    using False by (simp add: fixedDigits_def Let_def n_def m_def m'_def)
  have z: "isDigit CHR ''0''" by (simp add: isDigit_def)
  have "isDigit c" if "c \<in> set (digitsOf n)" for c
    using that digitsOf_isDigit[of n] by (simp add: list_all_iff)
  then have dig: "list_all isDigit m'"
    using z by (auto simp: m'_def m_def list_all_iff)
  have v: "digitsValue m' = n"
    by (simp add: m'_def m_def digitsValue_zeros digitsValue_digitsOf)
  show ?thesis
    by (rule exI[of _ "take (length m' - f) m'"], rule exI[of _ "drop (length m' - f) m'"])
       (use False k dig v in \<open>auto simp: fd n_def\<close>)
qed

lemma fixedString_shape:
  assumes "isFinite x" "\<bar>val x\<bar> < 10 ^ 21"
  shows "\<exists>ip fr. fixedString x f =
            (if val x < 0 then ''-'' else []) @ ip @ (if f = 0 then [] else ''.'' @ fr) \<and>
          ip \<noteq> [] \<and> length fr = f \<and> list_all isDigit (ip @ fr) \<and>
          digitsValue (ip @ fr) = nat \<lfloor>\<bar>val x\<bar> * 10 ^ f + 1 / 2\<rfloor>"
proof -
  obtain ip fr where s: "fixedDigits \<bar>val x\<bar> f = ip @ (if f = 0 then [] else ''.'' @ fr)"
    "ip \<noteq> []" "length fr = f" "list_all isDigit (ip @ fr)"
    "digitsValue (ip @ fr) = nat \<lfloor>\<bar>val x\<bar> * 10 ^ f + 1 / 2\<rfloor>"
    using fixedDigits_shape[of "\<bar>val x\<bar>" f] by blast
  have "fixedString x f = (if val x < 0 then ''-'' else []) @ fixedDigits \<bar>val x\<bar> f"
    using assms by (cases x) (simp_all add: fixedString_def val_def isFinite_def)
  then show ?thesis using s by auto
qed

lemma shortest_numeral:
  "shortest a d k (numeral n) =
     (case candidates a d k of
        [] \<Rightarrow> (case candidates a (d + 1) k of
                 [] \<Rightarrow> shortest a d (k + 1) (pred_numeral n)
               | cs \<Rightarrow> Some (d + 1, k, closest a (d + 1) k cs))
      | cs \<Rightarrow> Some (d, k, closest a d k cs))"
  by (simp add: numeral_eq_Suc)

lemma digits_1e21: "length (digitsOf (nat \<lfloor>10 ^ 21 :: rat\<rfloor>)) = 22"
  by (simp add: digitsOf_numeral digitsOf_small)

lemma shortest_1e21: "shortest (10 ^ 21) 22 1 17 = Some (22, 1, 1)"
proof -
  have r1: "roundD (10 ^ 21) = Fin (10 ^ 21)"
    by (simp add: roundD_at[where e=69] roundAt_def roundHalfEven_def Let_def)
  have r2: "roundD (2 * 10 ^ 21) \<noteq> Fin (10 ^ 21)"
    by (simp add: roundD_at[where e=70] roundAt_def roundHalfEven_def Let_def)
  have c: "candidates (10 ^ 21) 22 1 = [1]"
    using r1 r2 by (simp add: candidates_def Let_def)
  show ?thesis
    using c by (simp add: shortest_numeral closest_def)
qed

lemma expString_1e21: "expString (10 ^ 21) = ''1e+21''"
  unfolding expString_def Let_def digits_1e21 shortest_1e21
  by (simp add: digitsOf_numeral digitsOf_small digitChar_def)

lemma integerDigits_1e21: "integerDigits (10 ^ 21) = ''1000000000000000000000''"
  unfolding integerDigits_def digits_1e21 shortest_1e21
  by (simp add: digitsOf_small numeral_eq_Suc)

text \<open>
  C7, as stated, fails: from a magnitude of 10^21 on, \<open>toFixed\<close> switches to exponent
  notation and prints no decimal places. With 10^21 output tokens in one second and the
  default precision 1 the throughput segment is \<open>TPS 1e+21 tok/s\<close>.
\<close>

theorem C7_exponent_notation:
  "formatNotification \<lparr>elapsedSeconds = Fin 1, usage = zeroUsage\<lparr>output_n := Fin (10 ^ 21)\<rparr>,
      options = DEFAULTS\<rparr> =
     Inr ''TPS 1e+21 tok/s, out 1,000,000,000,000,000,000,000, in 0, cache r/w 0/0, total 0, 1.0s''"
proof -
  have r1: "roundD (10 ^ 21) = Fin (10 ^ 21)"
    by (simp add: roundD_at[where e=69] roundAt_def roundHalfEven_def Let_def)
  have q: "fdiv (Fin (10 ^ 21)) (mathMax (Fin 1) eps) = Fin (10 ^ 21)"
    using r1 by (simp add: mathMax_eps fdiv_def isInf_def val_def)
  have t: "throughputSeg \<lparr>elapsedSeconds = Fin 1, usage = zeroUsage\<lparr>output_n := Fin (10 ^ 21)\<rparr>,
      options = DEFAULTS\<rparr> = ''TPS 1e+21 tok/s''"
    using expString_1e21 q by (simp add: throughputSeg_def zeroUsage_def fixedString_def)
  have o: "outputSeg \<lparr>elapsedSeconds = Fin 1, usage = zeroUsage\<lparr>output_n := Fin (10 ^ 21)\<rparr>,
      options = DEFAULTS\<rparr> = ''out 1,000,000,000,000,000,000,000''"
    using integerDigits_1e21
    by (simp add: outputSeg_def zeroUsage_def num_eval toLocaleString_def fmtInt_def
        group3_Cons group3_Nil)
  have rest: "inputSeg \<lparr>elapsedSeconds = Fin 1, usage = zeroUsage\<lparr>output_n := Fin (10 ^ 21)\<rparr>,
      options = DEFAULTS\<rparr> = ''in 0''"
    "cacheSeg \<lparr>elapsedSeconds = Fin 1, usage = zeroUsage\<lparr>output_n := Fin (10 ^ 21)\<rparr>,
      options = DEFAULTS\<rparr> = ''cache r/w 0/0''"
    "totalSeg \<lparr>elapsedSeconds = Fin 1, usage = zeroUsage\<lparr>output_n := Fin (10 ^ 21)\<rparr>,
      options = DEFAULTS\<rparr> = ''total 0''"
    "elapsedSeg \<lparr>elapsedSeconds = Fin 1, usage = zeroUsage\<lparr>output_n := Fin (10 ^ 21)\<rparr>,
      options = DEFAULTS\<rparr> = ''1.0s''"
    by (simp_all add: inputSeg_def cacheSeg_def totalSeg_def elapsedSeg_def zeroUsage_def
        DEFAULTS_def precisionDigits_def fractionDigits_def num_eval str_eval)
  have g: "\<not> fgt (fadd (Fin 0) (Fin 0)) (Fin 0)" "\<not> fgt (Fin 0) (Fin 0)"
    by (simp_all add: fgt_def flt_def val_def)
  have p: "fractionDigits (precision DEFAULTS) = Inr 1"
    by (simp add: DEFAULTS_def fractionDigits_def)
  have "segments \<lparr>elapsedSeconds = Fin 1, usage = zeroUsage\<lparr>output_n := Fin (10 ^ 21)\<rparr>,
      options = DEFAULTS\<rparr> =
    [''TPS 1e+21 tok/s'', ''out 1,000,000,000,000,000,000,000'', ''in 0'', ''cache r/w 0/0'',
     ''total 0'', ''1.0s'']"
    unfolding segments_def t o rest using g by (simp add: zeroUsage_def DEFAULTS_def)
  then show ?thesis
    unfolding formatNotification_eq by (simp add: p)
qed

text \<open>
  C7, amended: whenever the quotient \<open>q = usage.output / max(elapsedSeconds, 1e-9)\<close>
  (binary64 division) is finite with magnitude below 10^21 and \<open>options.precision\<close>
  converts to a digit count \<open>p\<close> in 0..100, the throughput segment is \<open>"TPS "\<close>, a minus
  sign if \<open>q\<close> is negative, the decimal digits of \<open>|q|\<close> rounded to \<open>p\<close> places (a tie
  rounds up) with exactly \<open>p\<close> digits after the point (no point when \<open>p = 0\<close>), and
  \<open>" tok/s"\<close>.
\<close>

theorem C7_throughput_rendering:
  assumes "fractionDigits (precision (options args)) = Inr p"
    and "isFinite (fdiv (output_n (usage args)) (mathMax (elapsedSeconds args) eps))"
    and "\<bar>val (fdiv (output_n (usage args)) (mathMax (elapsedSeconds args) eps))\<bar> < 10 ^ 21"
  shows "\<exists>ip fr rest.
           formatParts args =
             Inr ((''TPS '' @
                   (if val (fdiv (output_n (usage args)) (mathMax (elapsedSeconds args) eps)) < 0
                    then ''-'' else []) @
                   ip @ (if p = 0 then [] else ''.'' @ fr) @ '' tok/s'') # rest) \<and>
           ip \<noteq> [] \<and> length fr = p \<and> list_all isDigit (ip @ fr) \<and>
           digitsValue (ip @ fr) =
             nat \<lfloor>\<bar>val (fdiv (output_n (usage args)) (mathMax (elapsedSeconds args) eps))\<bar> *
                    10 ^ p + 1 / 2\<rfloor>"
proof -
  define Q where "Q = fdiv (output_n (usage args)) (mathMax (elapsedSeconds args) eps)"
  obtain ip fr where s: "fixedString Q p =
            (if val Q < 0 then ''-'' else []) @ ip @ (if p = 0 then [] else ''.'' @ fr)"
    "ip \<noteq> []" "length fr = p" "list_all isDigit (ip @ fr)"
    "digitsValue (ip @ fr) = nat \<lfloor>\<bar>val Q\<bar> * 10 ^ p + 1 / 2\<rfloor>"
    using fixedString_shape[of Q p] assms(2,3) unfolding Q_def by blast
  have pd: "precisionDigits (options args) = p"
    using assms(1) by (simp add: precisionDigits_def)
  have t: "throughputSeg args =
      ''TPS '' @ (if val Q < 0 then ''-'' else []) @ ip @ (if p = 0 then [] else ''.'' @ fr) @
      '' tok/s''"
    unfolding throughputSeg_def pd Q_def[symmetric] s(1) by simp
  have "formatParts args = Inr (throughputSeg args # tl (segments args))"
    using assms(1) by (simp add: formatParts_eq segments_def)
  then show ?thesis
    using s(2-5) unfolding t Q_def by blast
qed

theorem C7_throughput_rendering_witness:
  "fractionDigits (precision (options \<lparr>elapsedSeconds = Fin 5,
       usage = zeroUsage\<lparr>output_n := Fin 500\<rparr>, options = DEFAULTS\<rparr>)) = Inr 1 \<and>
   fdiv (Fin 500) (mathMax (Fin 5) eps) = Fin 100 \<and>
   (\<exists>ip fr rest.
      formatParts \<lparr>elapsedSeconds = Fin 5, usage = zeroUsage\<lparr>output_n := Fin 500\<rparr>,
                   options = DEFAULTS\<rparr> =
        Inr ((''TPS '' @ ip @ ''.'' @ fr @ '' tok/s'') # rest) \<and>
      ip \<noteq> [] \<and> length fr = 1 \<and> list_all isDigit (ip @ fr) \<and> digitsValue (ip @ fr) = 1000)"
proof -
  let ?args = "\<lparr>elapsedSeconds = Fin 5, usage = zeroUsage\<lparr>output_n := Fin 500\<rparr>,
                 options = DEFAULTS\<rparr>"
  have p: "fractionDigits (precision (options ?args)) = Inr 1"
    by (simp add: DEFAULTS_def fractionDigits_def)
  have q: "fdiv (Fin 500) (mathMax (Fin 5) eps) = Fin 100"
    by (simp add: mathMax_eps fdiv_def isInf_def val_def)
  have q': "fdiv (output_n (usage ?args)) (mathMax (elapsedSeconds ?args) eps) = Fin 100"
    using q by (simp add: zeroUsage_def)
  have f: "isFinite (fdiv (output_n (usage ?args)) (mathMax (elapsedSeconds ?args) eps))"
    unfolding q' by (simp add: isFinite_def)
  have b: "\<bar>val (fdiv (output_n (usage ?args)) (mathMax (elapsedSeconds ?args) eps))\<bar> < 10 ^ 21"
    unfolding q' by (simp add: val_def)
  have v: "nat \<lfloor>\<bar>val (Fin 100)\<bar> * 10 ^ 1 + 1 / 2\<rfloor> = 1000" by (simp add: val_def)
  from C7_throughput_rendering[OF p f b]
  have "\<exists>ip fr rest.
      formatParts ?args = Inr ((''TPS '' @ ip @ ''.'' @ fr @ '' tok/s'') # rest) \<and>
      ip \<noteq> [] \<and> length fr = 1 \<and> list_all isDigit (ip @ fr) \<and> digitsValue (ip @ fr) = 1000"
    unfolding q' v by (simp add: val_def)
  then show ?thesis using p q by blast
qed

end
